theory Spec2Isabelle
  imports Main
begin

section \<open>The memory the string vector lives in\<close>

text \<open>
  The string vector of \<^verbatim>\<open>strvector.c\<close> is a block of \<^verbatim>\<open>char*\<close> handles, each
  pointing to a separately allocated, zero-terminated \<^verbatim>\<open>char\<close> buffer, and three
  pointers into that block. What the functions do is pointer bookkeeping, so the
  model keeps an explicit store: addresses are integers (0 is the null pointer),
  a \<^verbatim>\<open>char**\<close> block is found under its base address and indexed in units of one
  handle, a \<^verbatim>\<open>char\<close> buffer is found under its address and holds all its bytes,
  the terminator included.

  Every function returns an \<open>option\<close>: \<open>None\<close> stands for what C leaves undefined
  (a read or write outside a block, the use of a released or indeterminate
  pointer, a double release) and for a failed \<^verbatim>\<open>IGRAPH_ASSERT\<close>, which aborts.
\<close>

abbreviation NUL :: char where
  "NUL \<equiv> CHR 0x00"

datatype charp = Null | Str int | Uninit

text \<open>
  An allocation request is answered by the allocator, not by the program. The
  store carries the answers still to come: \<open>Fail\<close> (a null result), \<open>Inplace\<close>
  (success; a reallocation keeps the address) and \<open>Moved\<close> (success; a
  reallocation returns a new block and releases the old one). Once the list is
  used up every request succeeds in place.
\<close>

datatype outcome = Fail | Inplace | Moved

text \<open>
  The macros \<^verbatim>\<open>IGRAPH_CALLOC\<close>, \<^verbatim>\<open>IGRAPH_REALLOC\<close> and \<^verbatim>\<open>IGRAPH_FREE\<close> are
  declared in \<^verbatim>\<open>igraph_memory.h\<close>, which is not among the source files. They are
  taken as the C library calls they name. Whether \<^verbatim>\<open>IGRAPH_FREE(p)\<close> also
  resets the handle \<^verbatim>\<open>p\<close> to null is a parameter of the store (\<open>free_clears\<close>),
  as is the byte that storage not yet written happens to hold (\<open>junk\<close>).
\<close>

record mem =
  bufs :: "int \<Rightarrow> char list option"
  arrs :: "int \<Rightarrow> charp list option"
  plan :: "outcome list"
  top :: int
  free_clears :: bool
  junk :: char

definition draw :: "mem \<Rightarrow> outcome \<times> mem" where
  "draw m = (case plan m of [] \<Rightarrow> (Inplace, m) | r # rs \<Rightarrow> (r, m\<lparr>plan := rs\<rparr>))"

definition slots_of :: "int \<Rightarrow> nat" where
  \<comment> \<open>the element count the allocation macros pass on: \<^verbatim>\<open>n > 0 ? n : 1\<close>\<close>
  "slots_of n = (if n > 0 then nat n else 1)"

definition IGRAPH_CALLOC_char :: "int \<Rightarrow> mem \<Rightarrow> charp \<times> mem" where
  "IGRAPH_CALLOC_char n m =
     (let (r, m1) = draw m in
      if r = Fail then (Null, m1)
      else (Str (top m1),
            m1\<lparr>bufs := (bufs m1)(top m1 \<mapsto> replicate (slots_of n) NUL),
               top := top m1 + 1\<rparr>))"

definition IGRAPH_CALLOC_charp :: "int \<Rightarrow> mem \<Rightarrow> int \<times> mem" where
  "IGRAPH_CALLOC_charp n m =
     (let (r, m1) = draw m in
      if r = Fail then (0, m1)
      else (top m1,
            m1\<lparr>arrs := (arrs m1)(top m1 \<mapsto> replicate (slots_of n) Null),
               top := top m1 + int (slots_of n) + 1\<rparr>))"

definition resized :: "nat \<Rightarrow> 'a \<Rightarrow> 'a list \<Rightarrow> 'a list" where
  \<comment> \<open>the content of a reallocated block: the old prefix, then unwritten storage\<close>
  "resized n x xs = take n xs @ replicate (n - length xs) x"

definition IGRAPH_REALLOC_char :: "charp \<Rightarrow> int \<Rightarrow> mem \<Rightarrow> (charp \<times> mem) option" where
  "IGRAPH_REALLOC_char p n m =
     (case p of
        Str a \<Rightarrow>
          (case bufs m a of
             None \<Rightarrow> None
           | Some bs \<Rightarrow>
               (let (r, m1) = draw m; bs' = resized (slots_of n) (junk m) bs in
                if r = Fail then Some (Null, m1)
                else if r = Inplace then Some (Str a, m1\<lparr>bufs := (bufs m1)(a \<mapsto> bs')\<rparr>)
                else Some (Str (top m1),
                           m1\<lparr>bufs := ((bufs m1)(a := None))(top m1 \<mapsto> bs'),
                              top := top m1 + 1\<rparr>)))
      | _ \<Rightarrow> None)"

definition IGRAPH_REALLOC_charp :: "int \<Rightarrow> int \<Rightarrow> mem \<Rightarrow> (int \<times> mem) option" where
  "IGRAPH_REALLOC_charp b n m =
     (case arrs m b of
        None \<Rightarrow> None
      | Some xs \<Rightarrow>
          (let (r, m1) = draw m; xs' = resized (slots_of n) Uninit xs in
           if r = Fail then Some (0, m1)
           else if r = Inplace then Some (b, m1\<lparr>arrs := (arrs m1)(b \<mapsto> xs')\<rparr>)
           else Some (top m1,
                      m1\<lparr>arrs := ((arrs m1)(b := None))(top m1 \<mapsto> xs'),
                         top := top m1 + int (slots_of n) + 1\<rparr>)))"

definition free_char :: "charp \<Rightarrow> mem \<Rightarrow> mem option" where
  \<comment> \<open>\<^verbatim>\<open>free\<close> of a string buffer: nothing for null, undefined for a pointer not live\<close>
  "free_char p m =
     (case p of
        Null \<Rightarrow> Some m
      | Str a \<Rightarrow> (if bufs m a = None then None else Some (m\<lparr>bufs := (bufs m)(a := None)\<rparr>))
      | Uninit \<Rightarrow> None)"

definition free_charp :: "int \<Rightarrow> mem \<Rightarrow> mem option" where
  "free_charp b m =
     (if b = 0 then Some m
      else if arrs m b = None then None
      else Some (m\<lparr>arrs := (arrs m)(b := None)\<rparr>))"

definition load :: "mem \<Rightarrow> int \<Rightarrow> int \<Rightarrow> charp option" where
  \<comment> \<open>the value of \<^verbatim>\<open>b[i]\<close> for a \<^verbatim>\<open>char**\<close> \<open>b\<close>\<close>
  "load m b i =
     (case arrs m b of
        None \<Rightarrow> None
      | Some xs \<Rightarrow>
          if 0 \<le> i \<and> i < int (length xs) \<and> xs ! nat i \<noteq> Uninit then Some (xs ! nat i)
          else None)"

definition store :: "mem \<Rightarrow> int \<Rightarrow> int \<Rightarrow> charp \<Rightarrow> mem option" where
  \<comment> \<open>the assignment \<^verbatim>\<open>b[i] = p\<close>\<close>
  "store m b i p =
     (case arrs m b of
        None \<Rightarrow> None
      | Some xs \<Rightarrow>
          if 0 \<le> i \<and> i < int (length xs) then Some (m\<lparr>arrs := (arrs m)(b \<mapsto> xs[nat i := p])\<rparr>)
          else None)"

definition IGRAPH_FREE_slot :: "int \<Rightarrow> int \<Rightarrow> mem \<Rightarrow> mem option" where
  \<comment> \<open>\<^verbatim>\<open>IGRAPH_FREE(b[i])\<close>\<close>
  "IGRAPH_FREE_slot b i m =
     (case load m b i of
        None \<Rightarrow> None
      | Some p \<Rightarrow>
          (case free_char p m of
             None \<Rightarrow> None
           | Some m1 \<Rightarrow> if free_clears m1 then store m1 b i Null else Some m1))"

definition cstr :: "char list \<Rightarrow> char list" where
  \<comment> \<open>the C string a buffer holds: its bytes before the first zero byte\<close>
  "cstr bs = takeWhile (\<lambda>c. c \<noteq> NUL) bs"

definition strlen :: "char list \<Rightarrow> nat option" where
  \<comment> \<open>undefined when the buffer has no terminator\<close>
  "strlen bs = (if NUL \<in> set bs then Some (length (cstr bs)) else None)"

definition write_bytes :: "charp \<Rightarrow> char list \<Rightarrow> mem \<Rightarrow> mem option" where
  \<comment> \<open>writes the given bytes to the start of the buffer \<open>p\<close> points to\<close>
  "write_bytes p cs m =
     (case p of
        Str a \<Rightarrow>
          (case bufs m a of
             None \<Rightarrow> None
           | Some bs \<Rightarrow>
               if length cs \<le> length bs
               then Some (m\<lparr>bufs := (bufs m)(a \<mapsto> cs @ drop (length cs) bs)\<rparr>)
               else None)
      | _ \<Rightarrow> None)"

definition store_byte :: "charp \<Rightarrow> nat \<Rightarrow> char \<Rightarrow> mem \<Rightarrow> mem option" where
  \<comment> \<open>the assignment \<^verbatim>\<open>p[k] = c\<close> for a \<^verbatim>\<open>char*\<close> \<open>p\<close>\<close>
  "store_byte p k c m =
     (case p of
        Str a \<Rightarrow>
          (case bufs m a of
             None \<Rightarrow> None
           | Some bs \<Rightarrow> if k < length bs then Some (m\<lparr>bufs := (bufs m)(a \<mapsto> bs[k := c])\<rparr>) else None)
      | _ \<Rightarrow> None)"

definition strcpy :: "charp \<Rightarrow> char list \<Rightarrow> mem \<Rightarrow> mem option" where
  "strcpy p src m = (if NUL \<in> set src then write_bytes p (cstr src @ [NUL]) m else None)"

definition memcpy :: "charp \<Rightarrow> char list \<Rightarrow> nat \<Rightarrow> mem \<Rightarrow> mem option" where
  "memcpy p src n m = (if n \<le> length src then write_bytes p (take n src) m else None)"

definition strdup :: "char list \<Rightarrow> mem \<Rightarrow> (charp \<times> mem) option" where
  \<comment> \<open>\<^verbatim>\<open>strdup\<close>: a new buffer of \<open>strlen + 1\<close> bytes holding a copy\<close>
  "strdup src m =
     (if NUL \<in> set src then
        (let (r, m1) = draw m in
         if r = Fail then Some (Null, m1)
         else Some (Str (top m1),
                    m1\<lparr>bufs := (bufs m1)(top m1 \<mapsto> cstr src @ [NUL]), top := top m1 + 1\<rparr>))
      else None)"

definition deref :: "mem \<Rightarrow> charp \<Rightarrow> char list option" where
  \<comment> \<open>the buffer a string pointer points to\<close>
  "deref m p = (case p of Str a \<Rightarrow> bufs m a | _ \<Rightarrow> None)"

section \<open>The string vector\<close>

text \<open>
  \<^verbatim>\<open>igraph_strvector_t\<close>: the three pointers \<^verbatim>\<open>stor_begin\<close>, \<^verbatim>\<open>stor_end\<close> and
  \<^verbatim>\<open>end\<close> (here \<open>endp\<close>). A function that takes one pointer to the struct takes the
  struct and returns it updated. \<^verbatim>\<open>igraph_integer_t\<close> is modelled by \<open>int\<close>; the
  sizes that occur are bounded by the memory, far below its range.
\<close>

record igraph_strvector_t =
  stor_begin :: int
  stor_end :: int
  endp :: int

datatype igraph_error_t = IGRAPH_SUCCESS | IGRAPH_ENOMEM | IGRAPH_EINVAL | IGRAPH_EOVERFLOW

definition IGRAPH_INTEGER_MAX :: int where
  "IGRAPH_INTEGER_MAX = 2 ^ 63 - 1"

definition igraph_strvector_size :: "igraph_strvector_t \<Rightarrow> int option" where
  "igraph_strvector_size sv = (if stor_begin sv = 0 then None else Some (endp sv - stor_begin sv))"

subsection \<open>destroy, init\<close>

function destroy_loop :: "igraph_strvector_t \<Rightarrow> int \<Rightarrow> mem \<Rightarrow> mem option" where
  "destroy_loop sv ptr m =
     (if ptr < endp sv then
        (if ptr \<noteq> 0 then
           (case IGRAPH_FREE_slot (stor_begin sv) (ptr - stor_begin sv) m of
              None \<Rightarrow> None
            | Some m1 \<Rightarrow> destroy_loop sv (ptr + 1) m1)
         else destroy_loop sv (ptr + 1) m)
      else Some m)"
  by pat_completeness auto
termination
  by (relation "measure (\<lambda>(sv, ptr, m). nat (endp sv - ptr))") auto

declare destroy_loop.simps [simp del]

definition igraph_strvector_destroy ::
  "igraph_strvector_t \<Rightarrow> mem \<Rightarrow> (igraph_strvector_t \<times> mem) option" where
  "igraph_strvector_destroy sv m =
     (if stor_begin sv = 0 then None
      else case destroy_loop sv (stor_begin sv) m of
        None \<Rightarrow> None
      | Some m1 \<Rightarrow>
          (case free_charp (stor_begin sv) m1 of
             None \<Rightarrow> None
           | Some m2 \<Rightarrow> Some (if free_clears m2 then sv\<lparr>stor_begin := 0\<rparr> else sv, m2)))"

function init_loop ::
  "igraph_strvector_t \<Rightarrow> int \<Rightarrow> int \<Rightarrow> mem \<Rightarrow> (igraph_error_t \<times> igraph_strvector_t \<times> mem) option"
where
  "init_loop sv sz i m =
     (if i < sz then
        (let (p, m1) = IGRAPH_CALLOC_char 1 m in
         case store m1 (stor_begin sv) i p of
           None \<Rightarrow> None
         | Some m2 \<Rightarrow>
             if p = Null then
               (case igraph_strvector_destroy sv m2 of
                  None \<Rightarrow> None
                | Some (sv', m3) \<Rightarrow> Some (IGRAPH_ENOMEM, sv', m3))
             else
               (case store_byte p 0 NUL m2 of
                  None \<Rightarrow> None
                | Some m3 \<Rightarrow> init_loop sv sz (i + 1) m3))
      else Some (IGRAPH_SUCCESS,
                 sv\<lparr>stor_end := stor_begin sv + sz, endp := stor_begin sv + sz\<rparr>, m))"
  by pat_completeness auto
termination
  by (relation "measure (\<lambda>(sv, sz, i, m). nat (sz - i))") auto

declare init_loop.simps [simp del]

definition igraph_strvector_init ::
  "igraph_strvector_t \<Rightarrow> int \<Rightarrow> mem \<Rightarrow> (igraph_error_t \<times> igraph_strvector_t \<times> mem) option"
where
  "igraph_strvector_init sv sz m =
     (let (b, m1) = IGRAPH_CALLOC_charp sz m; sv1 = sv\<lparr>stor_begin := b\<rparr> in
      if b = 0 then Some (IGRAPH_ENOMEM, sv1, m1)
      else init_loop sv1 sz 0 m1)"

subsection \<open>get, set, set2\<close>

definition igraph_strvector_get :: "igraph_strvector_t \<Rightarrow> int \<Rightarrow> mem \<Rightarrow> charp option" where
  "igraph_strvector_get sv idx m =
     (if stor_begin sv = 0 then None
      else case load m (stor_begin sv) idx of
        None \<Rightarrow> None
      | Some p \<Rightarrow> if p = Null then None else Some p)"

definition set_slot ::
  "igraph_strvector_t \<Rightarrow> int \<Rightarrow> int \<Rightarrow> mem \<Rightarrow> (igraph_error_t \<times> mem) option"
where
  \<comment> \<open>the allocation step shared by \<^verbatim>\<open>set\<close> and \<^verbatim>\<open>set2\<close>: a new buffer for a null
      handle, a reallocation otherwise; \<open>n\<close> is the byte count asked for\<close>
  "set_slot sv idx n m =
     (case load m (stor_begin sv) idx of
        None \<Rightarrow> None
      | Some q \<Rightarrow>
          if q = Null then
            (let (p, m1) = IGRAPH_CALLOC_char n m in
             case store m1 (stor_begin sv) idx p of
               None \<Rightarrow> None
             | Some m2 \<Rightarrow> Some (if p = Null then IGRAPH_ENOMEM else IGRAPH_SUCCESS, m2))
          else
            (case IGRAPH_REALLOC_char q n m of
               None \<Rightarrow> None
             | Some (tmp, m1) \<Rightarrow>
                 if tmp = Null then Some (IGRAPH_ENOMEM, m1)
                 else (case store m1 (stor_begin sv) idx tmp of
                         None \<Rightarrow> None
                       | Some m2 \<Rightarrow> Some (IGRAPH_SUCCESS, m2))))"

definition igraph_strvector_set ::
  "igraph_strvector_t \<Rightarrow> int \<Rightarrow> char list \<Rightarrow> mem \<Rightarrow> (igraph_error_t \<times> mem) option"
where
  \<comment> \<open>\<open>val\<close> is the buffer the argument \<^verbatim>\<open>value\<close> points to\<close>
  "igraph_strvector_set sv idx val m =
     (if stor_begin sv = 0 then None
      else case strlen val of
        None \<Rightarrow> None
      | Some value_len \<Rightarrow>
          (case set_slot sv idx (int value_len + 1) m of
             None \<Rightarrow> None
           | Some (e, m1) \<Rightarrow>
               if e \<noteq> IGRAPH_SUCCESS then Some (e, m1)
               else (case load m1 (stor_begin sv) idx of
                       None \<Rightarrow> None
                     | Some p \<Rightarrow>
                         (case strcpy p val m1 of
                            None \<Rightarrow> None
                          | Some m2 \<Rightarrow> Some (IGRAPH_SUCCESS, m2)))))"

definition igraph_strvector_set2 ::
  "igraph_strvector_t \<Rightarrow> int \<Rightarrow> char list \<Rightarrow> nat \<Rightarrow> mem \<Rightarrow> (igraph_error_t \<times> mem) option"
where
  "igraph_strvector_set2 sv idx val len m =
     (if idx < 0 \<or> idx \<ge> stor_end sv - stor_begin sv then Some (IGRAPH_EINVAL, m)
      else if stor_begin sv = 0 then None
      else case set_slot sv idx (int len + 1) m of
        None \<Rightarrow> None
      | Some (e, m1) \<Rightarrow>
          if e \<noteq> IGRAPH_SUCCESS then Some (e, m1)
          else (case load m1 (stor_begin sv) idx of
                  None \<Rightarrow> None
                | Some p \<Rightarrow>
                    (case memcpy p val len m1 of
                       None \<Rightarrow> None
                     | Some m2 \<Rightarrow>
                         (case store_byte p len NUL m2 of
                            None \<Rightarrow> None
                          | Some m3 \<Rightarrow> Some (IGRAPH_SUCCESS, m3)))))"

subsection \<open>The two release loops\<close>

text \<open>
  \<^verbatim>\<open>for (i = lo; i < hi; i++) IGRAPH_FREE(b[i]);\<close> occurs in \<^verbatim>\<open>clear\<close> and in the
  shrinking branch of \<^verbatim>\<open>resize\<close>; the guarded form
  \<^verbatim>\<open>if (b[i] != 0) IGRAPH_FREE(b[i]);\<close> in \<^verbatim>\<open>remove_section\<close> and
  \<^verbatim>\<open>move_interval\<close>.
\<close>

function free_loop :: "int \<Rightarrow> int \<Rightarrow> int \<Rightarrow> mem \<Rightarrow> mem option" where
  "free_loop b i hi m =
     (if i < hi then
        (case IGRAPH_FREE_slot b i m of
           None \<Rightarrow> None
         | Some m1 \<Rightarrow> free_loop b (i + 1) hi m1)
      else Some m)"
  by pat_completeness auto
termination
  by (relation "measure (\<lambda>(b, i, hi, m). nat (hi - i))") auto

declare free_loop.simps [simp del]

function free_nonnull_loop :: "int \<Rightarrow> int \<Rightarrow> int \<Rightarrow> mem \<Rightarrow> mem option" where
  "free_nonnull_loop b i hi m =
     (if i < hi then
        (case load m b i of
           None \<Rightarrow> None
         | Some q \<Rightarrow>
             if q \<noteq> Null then
               (case IGRAPH_FREE_slot b i m of
                  None \<Rightarrow> None
                | Some m1 \<Rightarrow> free_nonnull_loop b (i + 1) hi m1)
             else free_nonnull_loop b (i + 1) hi m)
      else Some m)"
  by pat_completeness auto
termination
  by (relation "measure (\<lambda>(b, i, hi, m). nat (hi - i))") auto

declare free_nonnull_loop.simps [simp del]

subsection \<open>resize, clear\<close>

function resize_cleanup_loop :: "int \<Rightarrow> int \<Rightarrow> int \<Rightarrow> int \<Rightarrow> mem \<Rightarrow> mem option" where
  \<comment> \<open>\<^verbatim>\<open>for (j = 0; j < i; j++) if (b[oldsize + i] != 0) IGRAPH_FREE(b[oldsize + i]);\<close>\<close>
  "resize_cleanup_loop b oldsize i j m =
     (if j < i then
        (case load m b (oldsize + i) of
           None \<Rightarrow> None
         | Some q \<Rightarrow>
             if q \<noteq> Null then
               (case IGRAPH_FREE_slot b (oldsize + i) m of
                  None \<Rightarrow> None
                | Some m1 \<Rightarrow> resize_cleanup_loop b oldsize i (j + 1) m1)
             else resize_cleanup_loop b oldsize i (j + 1) m)
      else Some m)"
  by pat_completeness auto
termination
  by (relation "measure (\<lambda>(b, oldsize, i, j, m). nat (i - j))") auto

declare resize_cleanup_loop.simps [simp del]

function resize_grow_loop ::
  "int \<Rightarrow> int \<Rightarrow> int \<Rightarrow> int \<Rightarrow> mem \<Rightarrow> (igraph_error_t \<times> mem) option"
where
  "resize_grow_loop b oldsize toadd i m =
     (if i < toadd then
        (let (p, m1) = IGRAPH_CALLOC_char 1 m in
         case store m1 b (oldsize + i) p of
           None \<Rightarrow> None
         | Some m2 \<Rightarrow>
             if p = Null then
               (case resize_cleanup_loop b oldsize i 0 m2 of
                  None \<Rightarrow> None
                | Some m3 \<Rightarrow> Some (IGRAPH_ENOMEM, m3))
             else
               (case store_byte p 0 NUL m2 of
                  None \<Rightarrow> None
                | Some m3 \<Rightarrow> resize_grow_loop b oldsize toadd (i + 1) m3))
      else Some (IGRAPH_SUCCESS, m))"
  by pat_completeness auto
termination
  by (relation "measure (\<lambda>(b, oldsize, toadd, i, m). nat (toadd - i))") auto

declare resize_grow_loop.simps [simp del]

definition igraph_strvector_resize ::
  "igraph_strvector_t \<Rightarrow> int \<Rightarrow> mem \<Rightarrow> (igraph_error_t \<times> igraph_strvector_t \<times> mem) option"
where
  "igraph_strvector_resize v newsize m =
     (case igraph_strvector_size v of
        None \<Rightarrow> None
      | Some oldsize \<Rightarrow>
          (let toadd = newsize - oldsize in
           if newsize < oldsize then
             (case free_loop (stor_begin v) newsize oldsize m of
                None \<Rightarrow> None
              | Some m1 \<Rightarrow> Some (IGRAPH_SUCCESS, v\<lparr>endp := stor_begin v + newsize\<rparr>, m1))
           else if newsize > oldsize then
             (case IGRAPH_REALLOC_charp (stor_begin v) newsize m of
                None \<Rightarrow> None
              | Some (tmp, m1) \<Rightarrow>
                  if tmp = 0 then Some (IGRAPH_ENOMEM, v, m1)
                  else
                    (let v1 = v\<lparr>stor_begin := tmp, stor_end := tmp + newsize,
                                endp := tmp + newsize\<rparr> in
                     case resize_grow_loop (stor_begin v1) oldsize toadd 0 m1 of
                       None \<Rightarrow> None
                     | Some (e, m2) \<Rightarrow> Some (e, v1, m2)))
           else Some (IGRAPH_SUCCESS, v, m)))"

definition igraph_strvector_clear ::
  "igraph_strvector_t \<Rightarrow> mem \<Rightarrow> (igraph_strvector_t \<times> mem) option"
where
  "igraph_strvector_clear sv m =
     (case igraph_strvector_size sv of
        None \<Rightarrow> None
      | Some n \<Rightarrow>
          (case free_loop (stor_begin sv) 0 n m of
             None \<Rightarrow> None
           | Some m1 \<Rightarrow> Some (sv\<lparr>endp := stor_begin sv\<rparr>, m1)))"

subsection \<open>remove_section, remove, move_interval\<close>

function shift_loop ::
  "igraph_strvector_t \<Rightarrow> int \<Rightarrow> int \<Rightarrow> int \<Rightarrow> mem \<Rightarrow> mem option"
where
  \<comment> \<open>\<^verbatim>\<open>for (p = v->stor_begin; p < v->end - to; p++) p[from] = p[to];\<close>
      with \<open>p\<close> an address inside the block of \<open>v\<close>\<close>
  "shift_loop v from to p m =
     (if p < endp v - to then
        (case load m (stor_begin v) (p - stor_begin v + to) of
           None \<Rightarrow> None
         | Some x \<Rightarrow>
             (case store m (stor_begin v) (p - stor_begin v + from) x of
                None \<Rightarrow> None
              | Some m1 \<Rightarrow> shift_loop v from to (p + 1) m1))
      else Some m)"
  by pat_completeness auto
termination
  by (relation "measure (\<lambda>(v, from, to, p, m). nat (endp v - to - p))") auto

declare shift_loop.simps [simp del]

definition igraph_strvector_remove_section ::
  "igraph_strvector_t \<Rightarrow> int \<Rightarrow> int \<Rightarrow> mem \<Rightarrow> (igraph_strvector_t \<times> mem) option"
where
  "igraph_strvector_remove_section v from to m =
     (if stor_begin v = 0 then None
      else case free_nonnull_loop (stor_begin v) from to m of
        None \<Rightarrow> None
      | Some m1 \<Rightarrow>
          (case shift_loop v from to (stor_begin v) m1 of
             None \<Rightarrow> None
           | Some m2 \<Rightarrow> Some (v\<lparr>endp := endp v - (to - from)\<rparr>, m2)))"

definition igraph_strvector_remove ::
  "igraph_strvector_t \<Rightarrow> int \<Rightarrow> mem \<Rightarrow> (igraph_strvector_t \<times> mem) option"
where
  "igraph_strvector_remove v elem m =
     (if stor_begin v = 0 then None
      else igraph_strvector_remove_section v elem (elem + 1) m)"

function move_copy_loop :: "int \<Rightarrow> int \<Rightarrow> int \<Rightarrow> int \<Rightarrow> int \<Rightarrow> mem \<Rightarrow> mem option" where
  \<comment> \<open>the second loop of \<^verbatim>\<open>move_interval\<close>; \<open>bgn\<close> and \<open>en\<close> are its \<^verbatim>\<open>begin\<close> and
      \<^verbatim>\<open>end\<close>. The result of the allocation is not tested by the source.\<close>
  "move_copy_loop b bgn en to i m =
     (if i < en - bgn then
        (case load m b (bgn + i) of
           None \<Rightarrow> None
         | Some q \<Rightarrow>
             if q \<noteq> Null then
               (case deref m q of
                  None \<Rightarrow> None
                | Some src \<Rightarrow>
                    (case strlen src of
                       None \<Rightarrow> None
                     | Some l \<Rightarrow>
                         (let len = l + 1; (p, m1) = IGRAPH_CALLOC_char (int len) m in
                          case store m1 b (to + i) p of
                            None \<Rightarrow> None
                          | Some m2 \<Rightarrow>
                              (case memcpy p src len m2 of
                                 None \<Rightarrow> None
                               | Some m3 \<Rightarrow> move_copy_loop b bgn en to (i + 1) m3))))
             else move_copy_loop b bgn en to (i + 1) m)
      else Some m)"
  by pat_completeness auto
termination
  by (relation "measure (\<lambda>(b, bgn, en, to, i, m). nat (en - bgn - i))") auto

declare move_copy_loop.simps [simp del]

definition igraph_strvector_move_interval ::
  "igraph_strvector_t \<Rightarrow> int \<Rightarrow> int \<Rightarrow> int \<Rightarrow> mem \<Rightarrow> mem option"
where
  "igraph_strvector_move_interval v bgn en to m =
     (if stor_begin v = 0 then None
      else case free_nonnull_loop (stor_begin v) to (to + en - bgn) m of
        None \<Rightarrow> None
      | Some m1 \<Rightarrow> move_copy_loop (stor_begin v) bgn en to 0 m1)"

subsection \<open>copy, append\<close>

text \<open>
  \<^verbatim>\<open>igraph_strvector_copy\<close> and \<^verbatim>\<open>igraph_strvector_append\<close> take two pointers,
  \<^verbatim>\<open>to\<close> and \<^verbatim>\<open>from\<close>, and nothing keeps a caller from passing the same struct
  twice. They write through \<^verbatim>\<open>to\<close> and read through \<^verbatim>\<open>from\<close> afterwards, so these two
  functions take the addresses of the structs and a table of the structs by address,
  and return the table updated. Address 0 is the null pointer.
\<close>

type_synonym structs = "int \<Rightarrow> igraph_strvector_t option"

function copy_loop ::
  "int \<Rightarrow> int \<Rightarrow> structs \<Rightarrow> int \<Rightarrow> mem \<Rightarrow> (igraph_error_t \<times> structs \<times> mem) option"
where
  "copy_loop to from vs i m =
     (case vs from of
        None \<Rightarrow> None
      | Some fv \<Rightarrow>
          (case vs to of
             None \<Rightarrow> None
           | Some tv \<Rightarrow>
               (case igraph_strvector_size fv of
                  None \<Rightarrow> None
                | Some n \<Rightarrow>
                    if i < n then
                      (case igraph_strvector_get fv i m of
                         None \<Rightarrow> None
                       | Some str \<Rightarrow>
                           (case deref m str of
                              None \<Rightarrow> None
                            | Some val \<Rightarrow>
                                (case igraph_strvector_set tv i val m of
                                   None \<Rightarrow> None
                                 | Some (ret, m1) \<Rightarrow>
                                     if ret \<noteq> IGRAPH_SUCCESS then
                                       (case igraph_strvector_destroy tv m1 of
                                          None \<Rightarrow> None
                                        | Some (tv', m2) \<Rightarrow> Some (ret, vs(to \<mapsto> tv'), m2))
                                     else copy_loop to from vs (i + 1) m1)))
                    else Some (IGRAPH_SUCCESS, vs, m))))"
  by pat_completeness auto
termination
  by (relation "measure (\<lambda>(to, from, vs, i, m).
                  case vs from of None \<Rightarrow> 0 | Some fv \<Rightarrow> nat (endp fv - stor_begin fv - i))")
     (auto simp: igraph_strvector_size_def split: if_splits)

declare copy_loop.simps [simp del]

definition igraph_strvector_copy ::
  "int \<Rightarrow> int \<Rightarrow> structs \<Rightarrow> mem \<Rightarrow> (igraph_error_t \<times> structs \<times> mem) option"
where
  \<comment> \<open>\<^verbatim>\<open>igraph_strvector_size(from)\<close> is read again after \<^verbatim>\<open>to->stor_begin\<close> is written\<close>
  "igraph_strvector_copy to from vs m =
     (if to = 0 \<or> from = 0 then None
      else case (vs to, vs from) of
        (Some tv, Some fv) \<Rightarrow>
          (case igraph_strvector_size fv of
             None \<Rightarrow> None
           | Some n \<Rightarrow>
               (let (b, m1) = IGRAPH_CALLOC_charp n m;
                    tv1 = tv\<lparr>stor_begin := b\<rparr>;
                    vs1 = vs(to \<mapsto> tv1) in
                if b = 0 then Some (IGRAPH_ENOMEM, vs1, m1)
                else
                  (case vs1 from of
                     None \<Rightarrow> None
                   | Some fv1 \<Rightarrow>
                       (case igraph_strvector_size fv1 of
                          None \<Rightarrow> None
                        | Some n1 \<Rightarrow>
                            copy_loop to from
                              (vs1(to \<mapsto> tv1\<lparr>stor_end := b + n1, endp := b + n1\<rparr>)) 0 m1))))
      | _ \<Rightarrow> None)"

function append_loop ::
  "int \<Rightarrow> int \<Rightarrow> int \<Rightarrow> int \<Rightarrow> int \<Rightarrow> mem \<Rightarrow> (bool \<times> mem) option"
where
  \<comment> \<open>\<open>tb\<close> and \<open>fb\<close> are \<^verbatim>\<open>to->stor_begin\<close> and \<^verbatim>\<open>from->stor_begin\<close>, which the loop
      does not write; the flag returned is the local \<^verbatim>\<open>error\<close>\<close>
  "append_loop tb fb len1 len2 i m =
     (if i < len2 then
        (case load m fb i of
           None \<Rightarrow> None
         | Some q \<Rightarrow>
             (case deref m q of
                None \<Rightarrow> None
              | Some [] \<Rightarrow> None
              | Some (c # cs) \<Rightarrow>
                  if c \<noteq> NUL then
                    (case IGRAPH_FREE_slot tb (len1 + i) m of
                       None \<Rightarrow> None
                     | Some m1 \<Rightarrow>
                         (case load m1 fb i of
                            None \<Rightarrow> None
                          | Some q1 \<Rightarrow>
                              (case deref m1 q1 of
                                 None \<Rightarrow> None
                               | Some src \<Rightarrow>
                                   (case strdup src m1 of
                                      None \<Rightarrow> None
                                    | Some (p, m2) \<Rightarrow>
                                        (case store m2 tb (len1 + i) p of
                                           None \<Rightarrow> None
                                         | Some m3 \<Rightarrow>
                                             if p = Null then Some (True, m3)
                                             else append_loop tb fb len1 len2 (i + 1) m3)))))
                  else append_loop tb fb len1 len2 (i + 1) m))
      else Some (False, m))"
  by pat_completeness auto
termination
  by (relation "measure (\<lambda>(tb, fb, len1, len2, i, m). nat (len2 - i))") auto

declare append_loop.simps [simp del]

definition igraph_strvector_append ::
  "int \<Rightarrow> int \<Rightarrow> structs \<Rightarrow> mem \<Rightarrow> (igraph_error_t \<times> structs \<times> mem) option"
where
  \<comment> \<open>the loop reads \<^verbatim>\<open>from->stor_begin\<close> after \<^verbatim>\<open>igraph_strvector_resize(to, ...)\<close>
      has written the struct of \<open>to\<close>: it is looked up in the updated table\<close>
  "igraph_strvector_append to from vs m =
     (if to = 0 \<or> from = 0 then None
      else case (vs to, vs from) of
        (Some tv, Some fv) \<Rightarrow>
          (case igraph_strvector_size tv of
             None \<Rightarrow> None
           | Some len1 \<Rightarrow>
               (case igraph_strvector_size fv of
                  None \<Rightarrow> None
                | Some len2 \<Rightarrow>
                    (case igraph_strvector_resize tv (len1 + len2) m of
                       None \<Rightarrow> None
                     | Some (e, tv1, m1) \<Rightarrow>
                         (let vs1 = vs(to \<mapsto> tv1) in
                          if e \<noteq> IGRAPH_SUCCESS then Some (e, vs1, m1)
                          else
                            (case vs1 from of
                               None \<Rightarrow> None
                             | Some fv1 \<Rightarrow>
                                 (case append_loop (stor_begin tv1) (stor_begin fv1)
                                         len1 len2 0 m1 of
                                    None \<Rightarrow> None
                                  | Some (error, m2) \<Rightarrow>
                                      if error then
                                        (case igraph_strvector_resize tv1 len1 m2 of
                                           None \<Rightarrow> None
                                         | Some (e', tv2, m3) \<Rightarrow>
                                             Some (IGRAPH_ENOMEM, vs1(to \<mapsto> tv2), m3))
                                      else Some (IGRAPH_SUCCESS, vs1, m2)))))))
      | _ \<Rightarrow> None)"

subsection \<open>add\<close>

definition igraph_strvector_add ::
  "igraph_strvector_t \<Rightarrow> char list \<Rightarrow> mem \<Rightarrow>
   (igraph_error_t \<times> igraph_strvector_t \<times> mem) option"
where
  \<comment> \<open>the result of the call of \<^verbatim>\<open>resize\<close> is dropped, as in the source\<close>
  "igraph_strvector_add v val m =
     (case igraph_strvector_size v of
        None \<Rightarrow> None
      | Some old_size \<Rightarrow>
          (case strlen val of
             None \<Rightarrow> None
           | Some value_len \<Rightarrow>
               (let new_size = (if old_size < IGRAPH_INTEGER_MAX div 2 then old_size * 2
                                else IGRAPH_INTEGER_MAX) in
                if old_size = IGRAPH_INTEGER_MAX then Some (IGRAPH_EOVERFLOW, v, m)
                else
                  (case (if endp v = stor_end v then
                           (case igraph_strvector_resize v (if new_size = 0 then 1 else new_size) m of
                              None \<Rightarrow> None
                            | Some (e, v1, m1) \<Rightarrow> Some (v1, m1))
                         else Some (v, m)) of
                     None \<Rightarrow> None
                   | Some (v1, m1) \<Rightarrow>
                       (let (p, m2) = IGRAPH_CALLOC_char (int value_len + 1) m1 in
                        case store m2 (stor_begin v1) old_size p of
                          None \<Rightarrow> None
                        | Some m3 \<Rightarrow>
                            if p = Null then Some (IGRAPH_ENOMEM, v1, m3)
                            else
                              (case strcpy p val m3 of
                                 None \<Rightarrow> None
                               | Some m4 \<Rightarrow>
                                   Some (IGRAPH_SUCCESS,
                                         v1\<lparr>endp := stor_begin v1 + old_size + 1\<rparr>, m4)))))))"

subsection \<open>permdelete\<close>

definition VECTOR :: "int list \<Rightarrow> int \<Rightarrow> int option" where
  \<comment> \<open>\<^verbatim>\<open>VECTOR(*index)[i]\<close> for an \<^verbatim>\<open>igraph_vector_int_t\<close>\<close>
  "VECTOR index i = (if 0 \<le> i \<and> i < int (length index) then Some (index ! nat i) else None)"

function permdelete_loop ::
  "igraph_strvector_t \<Rightarrow> int list \<Rightarrow> int \<Rightarrow> mem \<Rightarrow> mem option"
where
  "permdelete_loop v index i m =
     (case igraph_strvector_size v of
        None \<Rightarrow> None
      | Some n \<Rightarrow>
          if i < n then
            (case VECTOR index i of
               None \<Rightarrow> None
             | Some d \<Rightarrow>
                 if d \<noteq> 0 then
                   (case load m (stor_begin v) i of
                      None \<Rightarrow> None
                    | Some x \<Rightarrow>
                        (case store m (stor_begin v) (d - 1) x of
                           None \<Rightarrow> None
                         | Some m1 \<Rightarrow> permdelete_loop v index (i + 1) m1))
                 else
                   (case IGRAPH_FREE_slot (stor_begin v) i m of
                      None \<Rightarrow> None
                    | Some m1 \<Rightarrow> permdelete_loop v index (i + 1) m1))
          else Some m)"
  by pat_completeness auto
termination
  by (relation "measure (\<lambda>(v, index, i, m). nat (endp v - stor_begin v - i))")
     (auto simp: igraph_strvector_size_def split: if_splits)

declare permdelete_loop.simps [simp del]

definition igraph_strvector_permdelete ::
  "igraph_strvector_t \<Rightarrow> int list \<Rightarrow> int \<Rightarrow> mem \<Rightarrow> (igraph_strvector_t \<times> mem) option"
where
  "igraph_strvector_permdelete v index nremove m =
     (if stor_begin v = 0 then None
      else case permdelete_loop v index 0 m of
        None \<Rightarrow> None
      | Some m1 \<Rightarrow>
          (case igraph_strvector_size v of
             None \<Rightarrow> None
           | Some n \<Rightarrow>
               (case IGRAPH_REALLOC_charp (stor_begin v)
                       (if n - nremove \<noteq> 0 then n - nremove else 1) m1 of
                  None \<Rightarrow> None
                | Some (tmp, m2) \<Rightarrow>
                    (let v1 = (if tmp \<noteq> 0 then v\<lparr>stor_begin := tmp\<rparr> else v) in
                     Some (v1\<lparr>stor_end := stor_end v1 - nremove,
                              endp := endp v1 - nremove\<rparr>, m2)))))"

section \<open>What a caller observes\<close>

definition get_bytes :: "igraph_strvector_t \<Rightarrow> int \<Rightarrow> mem \<Rightarrow> char list option" where
  \<comment> \<open>the buffer behind the pointer that \<^verbatim>\<open>igraph_strvector_get\<close> yields\<close>
  "get_bytes v i m =
     (case igraph_strvector_get v i m of None \<Rightarrow> None | Some p \<Rightarrow> deref m p)"

definition get_cstr :: "igraph_strvector_t \<Rightarrow> int \<Rightarrow> mem \<Rightarrow> char list option" where
  \<comment> \<open>the same, read as a C string\<close>
  "get_cstr v i m = map_option cstr (get_bytes v i m)"

definition handles :: "igraph_strvector_t \<Rightarrow> mem \<Rightarrow> charp option list" where
  \<comment> \<open>the handles in the slots below the logical size\<close>
  "handles v m = map (\<lambda>i. load m (stor_begin v) (int i)) [0..<nat (endp v - stor_begin v)]"

definition strings :: "igraph_strvector_t \<Rightarrow> mem \<Rightarrow> char list option list" where
  \<comment> \<open>the strings of the slots below the logical size, \<open>None\<close> where there is none to read\<close>
  "strings v m = map (\<lambda>i. get_cstr v (int i) m) [0..<nat (endp v - stor_begin v)]"

definition extents_ok :: "igraph_strvector_t \<Rightarrow> bool" where
  \<comment> \<open>\<open>capacity_begin \<le> logical_end \<le> capacity_end\<close>\<close>
  "extents_ok v \<longleftrightarrow> stor_begin v \<le> endp v \<and> endp v \<le> stor_end v"

definition terminated :: "mem \<Rightarrow> charp \<Rightarrow> bool" where
  \<comment> \<open>the handle points to a live buffer that holds a terminator\<close>
  "terminated m p = (case deref m p of None \<Rightarrow> False | Some bs \<Rightarrow> NUL \<in> set bs)"

definition valid :: "igraph_strvector_t \<Rightarrow> mem \<Rightarrow> bool" where
  \<comment> \<open>the invariants of the data model: the extents are ordered, the slot array is
      allocated and every slot below the logical size owns a live terminated buffer
      of its own\<close>
  "valid v m \<longleftrightarrow>
     stor_begin v \<noteq> 0 \<and> extents_ok v \<and> arrs m (stor_begin v) \<noteq> None \<and>
     distinct (handles v m) \<and>
     list_all (\<lambda>h. case h of None \<Rightarrow> False | Some p \<Rightarrow> terminated m p) (handles v m)"

definition fresh :: "mem \<Rightarrow> bool" where
  \<comment> \<open>the allocator hands out addresses that are not in use\<close>
  "fresh m \<longleftrightarrow> 0 < top m \<and> (\<forall>a \<ge> top m. bufs m a = None \<and> arrs m a = None)"

subsection \<open>Concrete stores for the examples\<close>

definition strings_at :: "int \<Rightarrow> char list list \<Rightarrow> int \<Rightarrow> char list option" where
  \<comment> \<open>the given strings, terminated, in buffers at consecutive addresses from \<open>a\<close>\<close>
  "strings_at a ss =
     map_of (zip (map (\<lambda>i. a + int i) [0..<length ss]) (map (\<lambda>s. s @ [NUL]) ss))"

definition vec_mem :: "char list list \<Rightarrow> outcome list \<Rightarrow> bool \<Rightarrow> mem" where
  \<comment> \<open>a store holding one vector of the given strings: its block at address 1, the
      strings from address 100\<close>
  "vec_mem ss pl fc =
     \<lparr>bufs = strings_at 100 ss,
      arrs = [1 \<mapsto> map (\<lambda>i. Str (100 + int i)) [0..<length ss]],
      plan = pl, top = 200, free_clears = fc, junk = CHR ''?''\<rparr>"

definition vec :: "nat \<Rightarrow> igraph_strvector_t" where
  \<comment> \<open>the struct of that vector: size and capacity \<open>n\<close>\<close>
  "vec n = \<lparr>stor_begin = 1, stor_end = 1 + int n, endp = 1 + int n\<rparr>"

definition empty_mem :: "outcome list \<Rightarrow> bool \<Rightarrow> mem" where
  "empty_mem pl fc =
     \<lparr>bufs = Map.empty, arrs = Map.empty, plan = pl, top = 1, free_clears = fc,
      junk = CHR ''?''\<rparr>"

definition zeroed :: igraph_strvector_t where
  \<comment> \<open>a struct not yet initialised, all bytes zero\<close>
  "zeroed = \<lparr>stor_begin = 0, stor_end = 0, endp = 0\<rparr>"

subsection \<open>Notions for the proofs\<close>

definition blen :: "mem \<Rightarrow> int \<Rightarrow> int option" where
  \<comment> \<open>the number of handles of the block at \<open>b\<close>\<close>
  "blen m b = map_option (\<lambda>xs. int (length xs)) (arrs m b)"

definition same_alloc :: "mem \<Rightarrow> mem \<Rightarrow> bool" where
  \<comment> \<open>no allocation request was answered between the two stores\<close>
  "same_alloc m m' \<longleftrightarrow>
     plan m' = plan m \<and> top m' = top m \<and> free_clears m' = free_clears m \<and> junk m' = junk m"

definition released :: "(int \<Rightarrow> char list option) \<Rightarrow> charp \<Rightarrow> int \<Rightarrow> char list option" where
  \<comment> \<open>the buffers left when the one behind \<open>p\<close> is released\<close>
  "released B p = (case p of Str a \<Rightarrow> B(a := None) | _ \<Rightarrow> B)"

definition compacting :: "int list \<Rightarrow> int \<Rightarrow> bool" where
  \<comment> \<open>a mapping as a compaction produces it: a non-zero entry at position \<open>i\<close> sends
      the element to a slot not above \<open>i\<close> and below \<open>limit\<close>, and no two elements are
      sent to the same slot\<close>
  "compacting index limit \<longleftrightarrow>
     list_all (\<lambda>(i, p). p = 0 \<or> 1 \<le> p \<and> p \<le> int i + 1 \<and> p \<le> limit) (enumerate 0 index) \<and>
     distinct (filter (\<lambda>p. p \<noteq> 0) index)"

definition pair_mem :: "char list list \<Rightarrow> char list list \<Rightarrow> outcome list \<Rightarrow> bool \<Rightarrow> mem" where
  \<comment> \<open>a store holding two vectors: the block of the first at address 1, of the second
      at address 50, their strings from address 100\<close>
  "pair_mem ss ts pl fc =
     \<lparr>bufs = strings_at 100 (ss @ ts),
      arrs = [1 \<mapsto> map (\<lambda>i. Str (100 + int i)) [0..<length ss],
              50 \<mapsto> map (\<lambda>i. Str (100 + int (length ss) + int i)) [0..<length ts]],
      plan = pl, top = 200, free_clears = fc, junk = CHR ''?''\<rparr>"

definition vec2 :: "nat \<Rightarrow> igraph_strvector_t" where
  \<comment> \<open>the struct of the second vector\<close>
  "vec2 n = \<lparr>stor_begin = 50, stor_end = 50 + int n, endp = 50 + int n\<rparr>"

section \<open>Evaluation\<close>

lemmas mem_ops = draw_def slots_of_def IGRAPH_CALLOC_char_def IGRAPH_CALLOC_charp_def resized_def
  IGRAPH_REALLOC_char_def IGRAPH_REALLOC_charp_def free_char_def free_charp_def load_def store_def
  IGRAPH_FREE_slot_def cstr_def strlen_def write_bytes_def store_byte_def strcpy_def memcpy_def
  strdup_def deref_def VECTOR_def Let_def

lemmas loops = destroy_loop.simps init_loop.simps free_loop.simps free_nonnull_loop.simps
  resize_cleanup_loop.simps resize_grow_loop.simps shift_loop.simps move_copy_loop.simps
  copy_loop.simps append_loop.simps permdelete_loop.simps

lemmas vec_ops = igraph_strvector_size_def igraph_strvector_destroy_def igraph_strvector_init_def
  igraph_strvector_get_def set_slot_def igraph_strvector_set_def igraph_strvector_set2_def
  igraph_strvector_resize_def igraph_strvector_clear_def igraph_strvector_remove_section_def
  igraph_strvector_remove_def igraph_strvector_move_interval_def igraph_strvector_copy_def
  igraph_strvector_append_def igraph_strvector_add_def igraph_strvector_permdelete_def
  IGRAPH_INTEGER_MAX_def

lemmas observers = get_bytes_def get_cstr_def handles_def strings_def extents_ok_def
  terminated_def valid_def

lemmas fixture = strings_at_def vec_mem_def vec_def empty_mem_def zeroed_def pair_mem_def vec2_def

section \<open>Reading and writing the store\<close>

lemma same_alloc_refl [simp]: "same_alloc m m"
  by (simp add: same_alloc_def)

lemma same_alloc_trans: "same_alloc m m1 \<Longrightarrow> same_alloc m1 m2 \<Longrightarrow> same_alloc m m2"
  by (simp add: same_alloc_def)

lemma load_range: "load m b i = Some p \<Longrightarrow> \<exists>L. blen m b = Some L \<and> 0 \<le> i \<and> i < L \<and> p \<noteq> Uninit"
  by (auto simp: load_def blen_def split: option.splits if_splits)

lemma store_Some: "blen m b = Some L \<Longrightarrow> 0 \<le> i \<Longrightarrow> i < L \<Longrightarrow> \<exists>m'. store m b i p = Some m'"
  by (auto simp: store_def blen_def split: option.splits)

lemma store_range: "store m b i p = Some m' \<Longrightarrow> \<exists>L. blen m b = Some L \<and> 0 \<le> i \<and> i < L"
  by (auto simp: store_def blen_def split: option.splits if_splits)

lemma store_load:
  "store m b i p = Some m' \<Longrightarrow>
   load m' b' j = (if b' = b \<and> j = i then (if p = Uninit then None else Some p) else load m b' j)"
  by (auto simp: store_def load_def nth_list_update split: option.splits if_splits)

lemma store_frame:
  "store m b i p = Some m' \<Longrightarrow> blen m' = blen m \<and> bufs m' = bufs m \<and> same_alloc m m'"
  by (auto simp: store_def blen_def same_alloc_def fun_eq_iff split: option.splits if_splits)

lemma free_char_Some:
  "p = Null \<or> (\<exists>a. p = Str a \<and> bufs m a \<noteq> None) \<Longrightarrow> \<exists>m'. free_char p m = Some m'"
  by (auto simp: free_char_def)

lemma free_char_D:
  "free_char p m = Some m' \<Longrightarrow>
   (p = Null \<and> m' = m \<or> (\<exists>a. p = Str a \<and> bufs m a \<noteq> None \<and> bufs m' = (bufs m)(a := None))) \<and>
   arrs m' = arrs m \<and> same_alloc m m'"
  by (auto simp: free_char_def same_alloc_def split: charp.splits if_splits)

lemma free_char_load: "free_char p m = Some m' \<Longrightarrow> load m' = load m"
  by (drule free_char_D) (auto simp: load_def fun_eq_iff)

lemma free_char_blen: "free_char p m = Some m' \<Longrightarrow> blen m' = blen m"
  by (drule free_char_D) (auto simp: blen_def fun_eq_iff)

lemma IGRAPH_FREE_slot_Some:
  assumes "load m b i = Some p" "p = Null \<or> (\<exists>a. p = Str a \<and> bufs m a \<noteq> None)"
  shows "\<exists>m'. IGRAPH_FREE_slot b i m = Some m'"
proof -
  from free_char_Some[OF assms(2)] obtain m1 where f: "free_char p m = Some m1" by blast
  from load_range[OF assms(1)] obtain L where "blen m b = Some L" "0 \<le> i" "i < L" by blast
  then have "\<exists>m'. store m1 b i Null = Some m'"
    using store_Some[of m1 b L i Null] free_char_blen[OF f] by simp
  with f assms(1) show ?thesis by (auto simp: IGRAPH_FREE_slot_def)
qed

lemma IGRAPH_FREE_slot_D:
  assumes "IGRAPH_FREE_slot b i m = Some m'"
  shows "\<exists>p. load m b i = Some p \<and> (p = Null \<or> (\<exists>a. p = Str a \<and> bufs m a \<noteq> None)) \<and>
           bufs m' = released (bufs m) p \<and> blen m' = blen m \<and> same_alloc m m' \<and>
           (\<forall>b' j. b' \<noteq> b \<or> j \<noteq> i \<longrightarrow> load m' b' j = load m b' j) \<and>
           (load m' b i = Some Null \<or> load m' b i = Some p)"
proof -
  from assms obtain p m1 where l: "load m b i = Some p" and f: "free_char p m = Some m1"
    and r: "(if free_clears m1 then store m1 b i Null else Some m1) = Some m'"
    by (auto simp: IGRAPH_FREE_slot_def split: option.splits)
  note d = free_char_D[OF f] and fl = free_char_load[OF f] and fb = free_char_blen[OF f]
  have pb: "bufs m1 = released (bufs m) p" using d by (auto simp: released_def)
  show ?thesis
  proof (cases "free_clears m1")
    case True
    with r have s: "store m1 b i Null = Some m'" by simp
    from store_frame[OF s] store_load[OF s] d l pb fl fb show ?thesis
      by (auto simp: same_alloc_def)
  next
    case False
    with r have "m' = m1" by simp
    with d l pb fl fb show ?thesis by auto
  qed
qed


lemma handles_nth:
  "i < nat (endp v - stor_begin v) \<Longrightarrow> handles v m ! i = load m (stor_begin v) (int i)"
  by (simp add: handles_def)

lemma valid_D:
  assumes "valid v m" "0 \<le> i" "i < endp v - stor_begin v"
  shows "\<exists>a bs. load m (stor_begin v) i = Some (Str a) \<and> bufs m a = Some bs \<and> NUL \<in> set bs"
proof -
  have k: "nat i < nat (endp v - stor_begin v)" using assms by simp
  from assms(1) have "list_all (\<lambda>h. case h of None \<Rightarrow> False | Some p \<Rightarrow> terminated m p) (handles v m)"
    by (simp add: valid_def)
  then have "\<forall>n < nat (endp v - stor_begin v). case load m (stor_begin v) (int n) of None \<Rightarrow> False | Some p \<Rightarrow> terminated m p"
    by (simp add: list_all_length handles_def)
  with k have "case load m (stor_begin v) (int (nat i)) of None \<Rightarrow> False | Some p \<Rightarrow> terminated m p"
    by blast
  then show ?thesis using assms(2)
    by (auto simp: terminated_def deref_def split: option.splits charp.splits)
qed

lemma valid_inj:
  assumes "valid v m" "0 \<le> i" "i < endp v - stor_begin v" "0 \<le> j" "j < endp v - stor_begin v"
    "load m (stor_begin v) i = load m (stor_begin v) j"
  shows "i = j"
proof -
  have k: "nat i < length (handles v m)" "nat j < length (handles v m)"
    using assms by (simp_all add: handles_def)
  from assms(1) have "distinct (handles v m)" by (simp add: valid_def)
  moreover have "handles v m ! nat i = handles v m ! nat j"
    using k assms by (simp add: handles_def)
  ultimately have "nat i = nat j" using k by (simp add: nth_eq_iff_index_eq)
  then show ?thesis using assms by simp
qed

lemma valid_base: "valid v m \<Longrightarrow> stor_begin v \<noteq> 0 \<and> stor_begin v \<le> endp v \<and> endp v \<le> stor_end v"
  by (simp add: valid_def extents_ok_def)

lemma store_same:
  assumes "load m b i = Some p"
  shows "store m b i p = Some m"
proof -
  from assms obtain xs where xs: "arrs m b = Some xs" "0 \<le> i" "i < int (length xs)" "xs ! nat i = p"
    by (auto simp: load_def split: option.splits if_splits)
  then have "xs[nat i := p] = xs" by (metis list_update_id)
  moreover have "(arrs m)(b \<mapsto> xs) = arrs m" using xs(1) by (simp add: fun_upd_idem)
  ultimately show ?thesis using xs by (simp add: store_def)
qed

lemma IGRAPH_FREE_slot_Null: "load m b i = Some Null \<Longrightarrow> IGRAPH_FREE_slot b i m = Some m"
  by (simp add: IGRAPH_FREE_slot_def free_char_def store_same)

lemma free_loops_spec:
  assumes ok: "\<And>i. lo \<le> i \<Longrightarrow> i < hi \<Longrightarrow>
                 load m b i = Some Null \<or> (\<exists>a. load m b i = Some (Str a) \<and> bufs m a \<noteq> None)"
    and inj: "\<And>i j. lo \<le> i \<Longrightarrow> i < hi \<Longrightarrow> lo \<le> j \<Longrightarrow> j < hi \<Longrightarrow> load m b i = load m b j \<Longrightarrow>
                 load m b i \<noteq> Some Null \<Longrightarrow> i = j"
  shows "\<exists>m'. free_loop b lo hi m = Some m' \<and> free_nonnull_loop b lo hi m = Some m' \<and>
           blen m' = blen m \<and> same_alloc m m' \<and>
           (\<forall>b' j. \<not> (b' = b \<and> lo \<le> j \<and> j < hi) \<longrightarrow> load m' b' j = load m b' j) \<and>
           (\<forall>j. lo \<le> j \<and> j < hi \<longrightarrow> load m' b j = Some Null \<or> load m' b j = load m b j) \<and>
           (\<forall>a. bufs m' a =
              (if \<exists>i. lo \<le> i \<and> i < hi \<and> load m b i = Some (Str a) then None else bufs m a))"
  using ok inj
proof (induction "nat (hi - lo)" arbitrary: lo m)
  case 0
  then have "\<not> lo < hi" by simp
  then show ?case
    by (subst free_loop.simps, subst free_nonnull_loop.simps) auto
next
  case (Suc k)
  then have lt: "lo < hi" by linarith
  from Suc.prems(1)[of lo] lt obtain p where p: "load m b lo = Some p"
    and pl: "p = Null \<or> (\<exists>a. p = Str a \<and> bufs m a \<noteq> None)" by auto
  from IGRAPH_FREE_slot_Some[OF p pl] obtain m1 where f: "IGRAPH_FREE_slot b lo m = Some m1" by blast
  from IGRAPH_FREE_slot_D[OF f] p have
    b1: "bufs m1 = released (bufs m) p" and bl: "blen m1 = blen m" and sa: "same_alloc m m1"
    and fr: "\<And>b' j. b' \<noteq> b \<or> j \<noteq> lo \<Longrightarrow> load m1 b' j = load m b' j"
    and at: "load m1 b lo = Some Null \<or> load m1 b lo = Some p"
    by auto
  have ok1: "load m1 b i = Some Null \<or> (\<exists>a. load m1 b i = Some (Str a) \<and> bufs m1 a \<noteq> None)"
    if i: "lo + 1 \<le> i" "i < hi" for i
  proof -
    have e: "load m1 b i = load m b i" using fr[of b i] i by simp
    from Suc.prems(1)[of i] i
    have c: "load m b i = Some Null \<or> (\<exists>a. load m b i = Some (Str a) \<and> bufs m a \<noteq> None)"
      by simp
    show ?thesis
    proof (cases "load m b i = Some Null")
      case True with e show ?thesis by simp
    next
      case False
      with c obtain a where a: "load m b i = Some (Str a)" "bufs m a \<noteq> None" by blast
      have "p \<noteq> Str a"
      proof
        assume "p = Str a"
        with p a have "load m b lo = load m b i" "load m b lo \<noteq> Some Null" by simp_all
        with Suc.prems(2)[of lo i] lt i have "lo = i" by simp
        with i show False by simp
      qed
      then have "bufs m1 a = bufs m a" using b1 by (auto simp: released_def split: charp.splits)
      with a e show ?thesis by simp
    qed
  qed
  have inj1: "i = j"
    if h: "lo + 1 \<le> i" "i < hi" "lo + 1 \<le> j" "j < hi" "load m1 b i = load m1 b j"
      "load m1 b i \<noteq> Some Null" for i j
  proof -
    have e: "load m1 b i = load m b i" "load m1 b j = load m b j"
      using fr[of b i] fr[of b j] h(1) h(3) by simp_all
    have "load m b i = load m b j" using h(5) e by simp
    moreover have "load m b i \<noteq> Some Null" using h(6) e by simp
    ultimately show ?thesis using Suc.prems(2)[of i j] h by simp
  qed
  have k: "k = nat (hi - (lo + 1))" using Suc.hyps(2) by linarith
  from Suc.hyps(1)[OF k ok1 inj1] obtain m' where
    r1: "free_loop b (lo + 1) hi m1 = Some m'" and r2: "free_nonnull_loop b (lo + 1) hi m1 = Some m'"
    and bl': "blen m' = blen m1" and sa': "same_alloc m1 m'"
    and fr': "\<And>b' j. \<not> (b' = b \<and> lo + 1 \<le> j \<and> j < hi) \<Longrightarrow> load m' b' j = load m1 b' j"
    and at': "\<And>j. lo + 1 \<le> j \<and> j < hi \<Longrightarrow> load m' b j = Some Null \<or> load m' b j = load m1 b j"
    and bf': "\<And>a. bufs m' a =
              (if \<exists>i. lo + 1 \<le> i \<and> i < hi \<and> load m1 b i = Some (Str a) then None else bufs m1 a)"
    by blast
  have e1: "free_loop b lo hi m = Some m'"
    by (subst free_loop.simps) (simp add: lt f r1)
  have e2: "free_nonnull_loop b lo hi m = Some m'"
  proof (cases "p = Null")
    case True
    then have "m1 = m" using f p IGRAPH_FREE_slot_Null[of m b lo] by simp
    then show ?thesis using True p r2 lt by (subst free_nonnull_loop.simps) simp
  next
    case False
    then show ?thesis using p r2 lt f by (subst free_nonnull_loop.simps) simp
  qed
  have c3: "\<forall>b' j. \<not> (b' = b \<and> lo \<le> j \<and> j < hi) \<longrightarrow> load m' b' j = load m b' j"
  proof (intro allI impI)
    fix b' j assume n: "\<not> (b' = b \<and> lo \<le> j \<and> j < hi)"
    then have "load m' b' j = load m1 b' j" using fr'[of b' j] by auto
    moreover have "load m1 b' j = load m b' j" using fr[of b' j] n lt by auto
    ultimately show "load m' b' j = load m b' j" by simp
  qed
  have c4: "\<forall>j. lo \<le> j \<and> j < hi \<longrightarrow> load m' b j = Some Null \<or> load m' b j = load m b j"
  proof (intro allI impI)
    fix j assume j: "lo \<le> j \<and> j < hi"
    show "load m' b j = Some Null \<or> load m' b j = load m b j"
    proof (cases "j = lo")
      case True
      then have "load m' b j = load m1 b lo" using fr'[of b lo] by simp
      with at p True show ?thesis by auto
    next
      case False
      with j have "lo + 1 \<le> j \<and> j < hi" by simp
      from at'[OF this] fr[of b j] False show ?thesis by auto
    qed
  qed
  have c5: "\<forall>a. bufs m' a =
              (if \<exists>i. lo \<le> i \<and> i < hi \<and> load m b i = Some (Str a) then None else bufs m a)"
  proof
    fix a
    have ex: "(\<exists>i. lo \<le> i \<and> i < hi \<and> load m b i = Some (Str a)) \<longleftrightarrow>
              p = Str a \<or> (\<exists>i. lo + 1 \<le> i \<and> i < hi \<and> load m1 b i = Some (Str a))"
    proof
      assume "\<exists>i. lo \<le> i \<and> i < hi \<and> load m b i = Some (Str a)"
      then obtain i where i: "lo \<le> i" "i < hi" "load m b i = Some (Str a)" by blast
      show "p = Str a \<or> (\<exists>i. lo + 1 \<le> i \<and> i < hi \<and> load m1 b i = Some (Str a))"
      proof (cases "i = lo")
        case True with i p show ?thesis by simp
      next
        case False
        then have "lo + 1 \<le> i \<and> i < hi \<and> load m1 b i = Some (Str a)" using i fr[of b i] by simp
        then show ?thesis by blast
      qed
    next
      assume "p = Str a \<or> (\<exists>i. lo + 1 \<le> i \<and> i < hi \<and> load m1 b i = Some (Str a))"
      then show "\<exists>i. lo \<le> i \<and> i < hi \<and> load m b i = Some (Str a)"
      proof
        assume "p = Str a" with p lt show ?thesis by auto
      next
        assume "\<exists>i. lo + 1 \<le> i \<and> i < hi \<and> load m1 b i = Some (Str a)"
        then obtain i where i: "lo + 1 \<le> i" "i < hi" "load m1 b i = Some (Str a)" by blast
        then have "load m b i = Some (Str a)" using fr[of b i] by simp
        with i show ?thesis by (intro exI[of _ i]) auto
      qed
    qed
    show "bufs m' a =
              (if \<exists>i. lo \<le> i \<and> i < hi \<and> load m b i = Some (Str a) then None else bufs m a)"
      unfolding ex bf'[of a] using b1 by (auto simp: released_def split: charp.splits)
  qed
  from e1 e2 bl bl' sa sa' c3 c4 c5 show ?case
    using same_alloc_trans by auto
qed


lemma shift_loop_spec:
  assumes "blen m (stor_begin v) = Some L" "endp v - stor_begin v \<le> L" "0 \<le> from" "from \<le> to"
    "stor_begin v \<le> p"
    and init: "\<And>j. to + (p - stor_begin v) \<le> j \<Longrightarrow> j < endp v - stor_begin v \<Longrightarrow>
                 \<exists>x. load m (stor_begin v) j = Some x"
  shows "\<exists>m'. shift_loop v from to p m = Some m' \<and> blen m' = blen m \<and> bufs m' = bufs m \<and>
           same_alloc m m' \<and>
           (\<forall>b' j. \<not> (b' = stor_begin v \<and> from + (p - stor_begin v) \<le> j \<and>
                       j < from + (endp v - stor_begin v - to)) \<longrightarrow> load m' b' j = load m b' j) \<and>
           (\<forall>j. from + (p - stor_begin v) \<le> j \<and> j < from + (endp v - stor_begin v - to) \<longrightarrow>
                load m' (stor_begin v) j = load m (stor_begin v) (j + (to - from)))"
  using assms
proof (induction "nat (endp v - to - p)" arbitrary: p m)
  case 0
  then have "\<not> p < endp v - to" by simp
  then show ?case by (subst shift_loop.simps) auto
next
  case (Suc d)
  let ?b = "stor_begin v"
  let ?k = "p - ?b"
  let ?n = "endp v - ?b"
  from Suc.hyps(2) have lt: "p < endp v - to" by linarith
  from Suc.prems(6)[of "?k + to"] lt obtain x where x: "load m ?b (?k + to) = Some x" by auto
  have "\<exists>m1. store m ?b (?k + from) x = Some m1"
    using store_Some[of m ?b L "?k + from" x] Suc.prems lt by auto
  then obtain m1 where st: "store m ?b (?k + from) x = Some m1" by blast
  note sl = store_load[OF st] and sf = store_frame[OF st]
  have xu: "x \<noteq> Uninit" using load_range[OF x] by blast
  have d: "d = nat (endp v - to - (p + 1))" using Suc.hyps(2) by linarith
  have bl1: "blen m1 ?b = Some L" using sf Suc.prems(1) by simp
  have init1: "\<exists>x. load m1 ?b j = Some x" if "to + (p + 1 - ?b) \<le> j" "j < ?n" for j
  proof -
    have "j \<noteq> ?k + from" using that Suc.prems(4) by linarith
    then have "load m1 ?b j = load m ?b j" using sl by simp
    moreover have "\<exists>x. load m ?b j = Some x" using Suc.prems(6)[of j] that by auto
    ultimately show ?thesis by simp
  qed
  have p1: "?b \<le> p + 1" using Suc.prems(5) by simp
  from Suc.hyps(1)[OF d bl1 Suc.prems(2) Suc.prems(3) Suc.prems(4) p1 init1]
  obtain m' where r: "shift_loop v from to (p + 1) m1 = Some m'"
    and bl': "blen m' = blen m1" and bf': "bufs m' = bufs m1" and sa': "same_alloc m1 m'"
    and fr': "\<And>b' j. \<not> (b' = ?b \<and> from + (p + 1 - ?b) \<le> j \<and> j < from + (?n - to)) \<Longrightarrow>
                load m' b' j = load m1 b' j"
    and mv': "\<And>j. from + (p + 1 - ?b) \<le> j \<and> j < from + (?n - to) \<Longrightarrow>
                load m' ?b j = load m1 ?b (j + (to - from))"
    by blast
  have e: "shift_loop v from to p m = Some m'"
    by (subst shift_loop.simps) (simp add: lt x st r)
  have c1: "\<forall>b' j. \<not> (b' = ?b \<and> from + ?k \<le> j \<and> j < from + (?n - to)) \<longrightarrow> load m' b' j = load m b' j"
  proof (intro allI impI)
    fix b' j assume n: "\<not> (b' = ?b \<and> from + ?k \<le> j \<and> j < from + (?n - to))"
    then have "load m' b' j = load m1 b' j" using fr'[of b' j] by auto
    moreover have "load m1 b' j = load m b' j" using sl[of b' j] n lt by auto
    ultimately show "load m' b' j = load m b' j" by simp
  qed
  have c2: "\<forall>j. from + ?k \<le> j \<and> j < from + (?n - to) \<longrightarrow> load m' ?b j = load m ?b (j + (to - from))"
  proof (intro allI impI)
    fix j assume j: "from + ?k \<le> j \<and> j < from + (?n - to)"
    show "load m' ?b j = load m ?b (j + (to - from))"
    proof (cases "j = from + ?k")
      case True
      then have "load m' ?b j = load m1 ?b j" using fr'[of ?b j] by simp
      also have "\<dots> = Some x" using sl[of ?b j] True xu by simp
      also have "\<dots> = load m ?b (j + (to - from))"
      proof -
        have "j + (to - from) = ?k + to" using True by linarith
        then show ?thesis using x by (simp only:)
      qed
      finally show ?thesis .
    next
      case False
      with j have jj: "from + (p + 1 - ?b) \<le> j \<and> j < from + (?n - to)" by simp
      have "j + (to - from) \<noteq> ?k + from" using jj Suc.prems(4) by linarith
      then have "load m1 ?b (j + (to - from)) = load m ?b (j + (to - from))" using sl by simp
      with mv'[OF jj] show ?thesis by simp
    qed
  qed
  from e bl' bf' sa' sf c1 c2 show ?case
    using same_alloc_trans by auto
qed

lemma get_bytes_eq:
  assumes "stor_begin v' \<noteq> 0 \<longleftrightarrow> stor_begin v \<noteq> 0" "load m' (stor_begin v') i' = load m (stor_begin v) i"
    "\<And>a. load m (stor_begin v) i = Some (Str a) \<Longrightarrow> bufs m' a = bufs m a"
  shows "get_bytes v' i' m' = get_bytes v i m"
  using assms
  by (auto simp: get_bytes_def igraph_strvector_get_def deref_def split: option.splits charp.splits)

subsection \<open>Allocation and copying\<close>

lemma draw_D:
  "draw m = (r, m1) \<Longrightarrow>
   bufs m1 = bufs m \<and> arrs m1 = arrs m \<and> top m1 = top m \<and> free_clears m1 = free_clears m \<and>
   junk m1 = junk m \<and> plan m1 = tl (plan m) \<and> (r = Fail \<longleftrightarrow> plan m \<noteq> [] \<and> hd (plan m) = Fail) \<and>
   (r = Moved \<longleftrightarrow> plan m \<noteq> [] \<and> hd (plan m) = Moved)"
  by (auto simp: draw_def split: list.splits)

lemma calloc_char_D:
  assumes "IGRAPH_CALLOC_char n m = (p, m1)"
  shows "arrs m1 = arrs m \<and> free_clears m1 = free_clears m \<and> junk m1 = junk m \<and>
         plan m1 = tl (plan m) \<and> (p = Null \<longleftrightarrow> plan m \<noteq> [] \<and> hd (plan m) = Fail) \<and>
         (p = Null \<and> bufs m1 = bufs m \<and> top m1 = top m \<or>
          p = Str (top m) \<and> bufs m1 = (bufs m)(top m \<mapsto> replicate (slots_of n) NUL) \<and>
          top m1 = top m + 1)"
proof -
  obtain r m0 where d: "draw m = (r, m0)" by (cases "draw m")
  note dd = draw_D[OF d]
  show ?thesis
  proof (cases "r = Fail")
    case True
    with assms d have "p = Null" "m1 = m0" by (simp_all add: IGRAPH_CALLOC_char_def)
    with dd True show ?thesis by simp
  next
    case False
    with assms d have "p = Str (top m0)"
      "m1 = m0\<lparr>bufs := (bufs m0)(top m0 \<mapsto> replicate (slots_of n) NUL), top := top m0 + 1\<rparr>"
      by (simp_all add: IGRAPH_CALLOC_char_def)
    with dd False show ?thesis by simp
  qed
qed

lemma realloc_char_D:
  assumes "IGRAPH_REALLOC_char q n m = Some (p, m1)"
  shows "\<exists>a bs. q = Str a \<and> bufs m a = Some bs \<and>
           arrs m1 = arrs m \<and> free_clears m1 = free_clears m \<and> junk m1 = junk m \<and>
           plan m1 = tl (plan m) \<and> (p = Null \<longleftrightarrow> plan m \<noteq> [] \<and> hd (plan m) = Fail) \<and>
           (p = Null \<and> bufs m1 = bufs m \<and> top m1 = top m \<or>
            p = Str a \<and> bufs m1 = (bufs m)(a \<mapsto> resized (slots_of n) (junk m) bs) \<and> top m1 = top m \<or>
            p = Str (top m) \<and>
            bufs m1 = ((bufs m)(a := None))(top m \<mapsto> resized (slots_of n) (junk m) bs) \<and>
            top m1 = top m + 1)"
proof -
  from assms obtain a bs where q: "q = Str a" "bufs m a = Some bs"
    by (auto simp: IGRAPH_REALLOC_char_def split: charp.splits option.splits)
  obtain r m0 where d: "draw m = (r, m0)" by (cases "draw m")
  note dd = draw_D[OF d]
  consider "r = Fail" | "r = Inplace" | "r = Moved" by (cases r) auto
  then show ?thesis
  proof cases
    case 1
    with assms d q have "p = Null" "m1 = m0" by (simp_all add: IGRAPH_REALLOC_char_def)
    with dd 1 q show ?thesis by simp
  next
    case 2
    with assms d q have "p = Str a"
      "m1 = m0\<lparr>bufs := (bufs m0)(a \<mapsto> resized (slots_of n) (junk m) bs)\<rparr>"
      by (simp_all add: IGRAPH_REALLOC_char_def)
    with dd 2 q show ?thesis by simp
  next
    case 3
    with assms d q have "p = Str (top m0)"
      "m1 = m0\<lparr>bufs := ((bufs m0)(a := None))(top m0 \<mapsto> resized (slots_of n) (junk m) bs),
                top := top m0 + 1\<rparr>"
      by (simp_all add: IGRAPH_REALLOC_char_def)
    with dd 3 q show ?thesis by simp
  qed
qed

lemma length_resized [simp]: "length (resized n x xs) = n"
  by (simp add: resized_def)

lemma set_slot_success:
  assumes "set_slot sv idx n m = Some (IGRAPH_SUCCESS, m1)"
  shows "\<exists>a bs. load m1 (stor_begin sv) idx = Some (Str a) \<and> bufs m1 a = Some bs \<and>
           length bs = slots_of n"
proof -
  from assms obtain q where q: "load m (stor_begin sv) idx = Some q"
    by (auto simp: set_slot_def split: option.splits)
  show ?thesis
  proof (cases "q = Null")
    case True
    obtain p m0 where c: "IGRAPH_CALLOC_char n m = (p, m0)" by (cases "IGRAPH_CALLOC_char n m")
    from assms q True c have st: "store m0 (stor_begin sv) idx p = Some m1" and pn: "p \<noteq> Null"
      by (auto simp: set_slot_def split: option.splits if_splits)
    from calloc_char_D[OF c] pn have p: "p = Str (top m)"
      and b: "bufs m0 (top m) = Some (replicate (slots_of n) NUL)" by auto
    from store_load[OF st, of "stor_begin sv" idx] store_frame[OF st] p b show ?thesis by simp
  next
    case False
    from assms q False obtain tmp m0 where rc: "IGRAPH_REALLOC_char q n m = Some (tmp, m0)"
      and tn: "tmp \<noteq> Null" and st: "store m0 (stor_begin sv) idx tmp = Some m1"
      by (auto simp: set_slot_def split: option.splits if_splits)
    from realloc_char_D[OF rc] tn obtain a' bs' where "tmp = Str a'" "bufs m0 a' = Some bs'"
      "length bs' = slots_of n" by auto
    with store_load[OF st, of "stor_begin sv" idx] store_frame[OF st] show ?thesis by simp
  qed
qed

lemma memcpy_terminate:
  assumes "bufs m a = Some bs" "length bs = length s + 1"
  shows "\<exists>m2 m3. memcpy (Str a) (s @ rest) (length s) m = Some m2 \<and>
           store_byte (Str a) (length s) NUL m2 = Some m3 \<and>
           bufs m3 = (bufs m)(a \<mapsto> s @ [NUL]) \<and> load m3 = load m"
proof -
  from assms(2) obtain x where x: "drop (length s) bs = [x]"
    by (cases "drop (length s) bs") (auto simp: length_Suc_conv dest: arg_cong[where f=length])
  let ?m2 = "m\<lparr>bufs := (bufs m)(a \<mapsto> s @ [x])\<rparr>"
  have 1: "memcpy (Str a) (s @ rest) (length s) m = Some ?m2"
    using assms x by (simp add: memcpy_def write_bytes_def)
  let ?m3 = "?m2\<lparr>bufs := (bufs ?m2)(a \<mapsto> s @ [NUL])\<rparr>"
  have 2: "store_byte (Str a) (length s) NUL ?m2 = Some ?m3"
    by (simp add: store_byte_def)
  have "load ?m3 = load m" by (simp add: load_def fun_eq_iff)
  with 1 2 show ?thesis by (intro exI[of _ ?m2] exI[of _ ?m3]) simp
qed

lemma strcpy_whole:
  assumes "bufs m a = Some bs" "length bs = length s + 1" "NUL \<notin> set s"
  shows "\<exists>m2. strcpy (Str a) (s @ NUL # rest) m = Some m2 \<and>
           bufs m2 = (bufs m)(a \<mapsto> s @ [NUL]) \<and> load m2 = load m"
proof -
  have cs: "cstr (s @ NUL # rest) = s" using assms(3) by (simp add: cstr_def takeWhile_append)
  let ?m2 = "m\<lparr>bufs := (bufs m)(a \<mapsto> s @ [NUL])\<rparr>"
  have "strcpy (Str a) (s @ NUL # rest) m = Some ?m2"
    using assms cs by (simp add: strcpy_def write_bytes_def)
  moreover have "load ?m2 = load m" by (simp add: load_def fun_eq_iff)
  ultimately show ?thesis by (intro exI[of _ ?m2]) simp
qed

subsection \<open>Fresh addresses, terminated buffers\<close>

lemma arrs_eq_load: "arrs m1 = arrs m \<Longrightarrow> load m1 = load m \<and> blen m1 = blen m"
  by (simp add: load_def blen_def fun_eq_iff)

lemma fresh_live: "fresh m \<Longrightarrow> bufs m a \<noteq> None \<Longrightarrow> a < top m"
  unfolding fresh_def by (meson not_le_imp_less)

lemma blen_None: "blen m b = None \<longleftrightarrow> arrs m b = None"
  by (simp add: blen_def)

lemma fresh_frame:
  assumes "fresh m" "blen m1 = blen m" "top m \<le> top m1"
    "\<And>a. top m1 \<le> a \<Longrightarrow> bufs m1 a = None"
  shows "fresh m1"
proof -
  have "arrs m1 a = None" if "top m1 \<le> a" for a
  proof -
    have "arrs m a = None" using assms(1,3) that by (auto simp: fresh_def)
    then have "blen m1 a = None" using assms(2) blen_None[of m a] by simp
    then show ?thesis using blen_None by simp
  qed
  then show ?thesis using assms by (auto simp: fresh_def)
qed


subsection \<open>Reallocated blocks, mappings\<close>

lemma valid_block:
  assumes "valid v m"
  shows "\<exists>L. blen m (stor_begin v) = Some L \<and> endp v - stor_begin v \<le> L"
proof (cases "0 < endp v - stor_begin v")
  case True
  from valid_D[OF assms, of "endp v - stor_begin v - 1"] True
  obtain a where "load m (stor_begin v) (endp v - stor_begin v - 1) = Some (Str a)" by auto
  from load_range[OF this] show ?thesis by auto
next
  case False
  with valid_base[OF assms] have z: "endp v - stor_begin v = 0" by simp
  from assms obtain xs where "arrs m (stor_begin v) = Some xs" by (auto simp: valid_def)
  then have "blen m (stor_begin v) = Some (int (length xs))" by (simp add: blen_def)
  with z show ?thesis by auto
qed

lemma realloc_charp_D:
  assumes "IGRAPH_REALLOC_charp b n m = Some (tmp, m1)"
  shows "\<exists>xs. arrs m b = Some xs \<and> bufs m1 = bufs m \<and> free_clears m1 = free_clears m \<and>
           junk m1 = junk m \<and> plan m1 = tl (plan m) \<and>
           (tmp = 0 \<and> arrs m1 = arrs m \<and> top m1 = top m \<and> plan m \<noteq> [] \<and> hd (plan m) = Fail \<or>
            tmp = b \<and> arrs m1 = (arrs m)(b \<mapsto> resized (slots_of n) Uninit xs) \<and> top m1 = top m \<and>
              (plan m = [] \<or> hd (plan m) = Inplace) \<or>
            tmp = top m \<and>
              arrs m1 = ((arrs m)(b := None))(top m \<mapsto> resized (slots_of n) Uninit xs) \<and>
              top m1 = top m + int (slots_of n) + 1 \<and> plan m \<noteq> [] \<and> hd (plan m) = Moved)"
proof -
  from assms obtain xs where q: "arrs m b = Some xs"
    by (auto simp: IGRAPH_REALLOC_charp_def split: option.splits)
  obtain r m0 where d: "draw m = (r, m0)" by (cases "draw m")
  have dd: "bufs m0 = bufs m \<and> arrs m0 = arrs m \<and> top m0 = top m \<and> free_clears m0 = free_clears m \<and>
   junk m0 = junk m \<and> plan m0 = tl (plan m)" using draw_D[OF d] by simp
  have rr: "r = (case plan m of [] \<Rightarrow> Inplace | x # _ \<Rightarrow> x)"
    using d by (auto simp: draw_def split: list.splits)
  consider "r = Fail" | "r = Inplace" | "r = Moved" by (cases r) auto
  then show ?thesis
  proof cases
    case 1
    with assms d q have "tmp = 0" "m1 = m0" by (auto simp: IGRAPH_REALLOC_charp_def)
    with dd 1 q rr show ?thesis by (cases "plan m") auto
  next
    case 2
    with assms d q have "tmp = b"
      "m1 = m0\<lparr>arrs := (arrs m0)(b \<mapsto> resized (slots_of n) Uninit xs)\<rparr>"
      by (auto simp: IGRAPH_REALLOC_charp_def)
    with dd 2 q rr show ?thesis by (cases "plan m") auto
  next
    case 3
    with assms d q have "tmp = top m0"
      "m1 = m0\<lparr>arrs := ((arrs m0)(b := None))(top m0 \<mapsto> resized (slots_of n) Uninit xs),
                top := top m0 + int (slots_of n) + 1\<rparr>"
      by (auto simp: IGRAPH_REALLOC_charp_def)
    with dd 3 q rr show ?thesis by (cases "plan m") auto
  qed
qed

lemma realloc_charp_Some:
  "arrs m b \<noteq> None \<Longrightarrow> \<exists>tmp m1. IGRAPH_REALLOC_charp b n m = Some (tmp, m1)"
  by (auto simp: IGRAPH_REALLOC_charp_def Let_def split: option.splits prod.splits)

lemma load_resized:
  assumes "arrs m b = Some xs" "arrs m1 b1 = Some (resized k Uninit xs)"
  shows "load m1 b1 j = (if j < int k then load m b j else None)"
  using assms
  by (auto simp: load_def resized_def nth_append split: option.splits)

lemma load_other:
  assumes "arrs m1 b' = arrs m b'"
  shows "load m1 b' j = load m b' j"
  using assms by (simp add: load_def)

lemma distinct_filter_nth:
  "distinct (filter P xs) \<Longrightarrow> i < length xs \<Longrightarrow> j < length xs \<Longrightarrow> xs ! i = xs ! j \<Longrightarrow>
   P (xs ! i) \<Longrightarrow> i = j"
proof (induction xs arbitrary: i j)
  case Nil
  then show ?case by simp
next
  case (Cons x xs)
  show ?case
  proof (cases i)
    case 0
    show ?thesis
    proof (cases j)
      case 0 with \<open>i = 0\<close> show ?thesis by simp
    next
      case (Suc j')
      with 0 Cons.prems have "P x" "x = xs ! j'" "j' < length xs" by simp_all
      then have "x \<in> set (filter P xs)" by auto
      with Cons.prems(1) \<open>P x\<close> show ?thesis by simp
    qed
  next
    case (Suc i')
    show ?thesis
    proof (cases j)
      case 0
      with Suc Cons.prems have "P x" "x = xs ! i'" "i' < length xs" by simp_all
      then have "x \<in> set (filter P xs)" by auto
      with Cons.prems(1) \<open>P x\<close> show ?thesis by simp
    next
      case (Suc j')
      with \<open>i = Suc i'\<close> Cons.prems have "i' = j'"
        by (intro Cons.IH) (auto split: if_splits)
      with Suc \<open>i = Suc i'\<close> show ?thesis by simp
    qed
  qed
qed

lemma compacting_D:
  assumes "compacting index limit" "0 \<le> k" "k < int (length index)" "index ! nat k \<noteq> 0"
  shows "1 \<le> index ! nat k \<and> index ! nat k \<le> k + 1 \<and> index ! nat k \<le> limit"
proof -
  have n: "nat k < length index" using assms by simp
  from assms(1) have "list_all (\<lambda>(i, p). p = 0 \<or> 1 \<le> p \<and> p \<le> int i + 1 \<and> p \<le> limit) (enumerate 0 index)"
    by (simp add: compacting_def)
  then have "(\<lambda>(i, p). p = 0 \<or> 1 \<le> p \<and> p \<le> int i + 1 \<and> p \<le> limit) (enumerate 0 index ! nat k)"
    using n by (simp add: list_all_length)
  then show ?thesis using n assms by (simp add: nth_enumerate_eq)
qed

lemma compacting_inj:
  assumes "compacting index limit" "0 \<le> k" "k < int (length index)" "0 \<le> k'" "k' < int (length index)"
    "index ! nat k = index ! nat k'" "index ! nat k \<noteq> 0"
  shows "k = k'"
proof -
  from assms(1) have "distinct (filter (\<lambda>p. p \<noteq> 0) index)" by (simp add: compacting_def)
  from distinct_filter_nth[OF this, of "nat k" "nat k'"] assms have "nat k = nat k'" by simp
  with assms show ?thesis by simp
qed

lemma VECTOR_Some: "0 \<le> i \<Longrightarrow> i < int (length index) \<Longrightarrow> VECTOR index i = Some (index ! nat i)"
  by (simp add: VECTOR_def)

subsection \<open>When every allocation is granted\<close>

lemma granted_tl:
  "Fail \<notin> set (plan m) \<Longrightarrow> plan m1 = tl (plan m) \<Longrightarrow>
   Fail \<notin> set (plan m1) \<and> \<not> (plan m \<noteq> [] \<and> hd (plan m) = Fail)"
  by (cases "plan m") auto

lemma draw_Fail: "fst (draw m) = Fail \<longleftrightarrow> plan m \<noteq> [] \<and> hd (plan m) = Fail"
  by (auto simp: draw_def split: list.splits)

lemma store_byte_plan: "store_byte p k c m = Some m' \<Longrightarrow> plan m' = plan m"
  by (auto simp: store_byte_def split: charp.splits option.splits if_splits)

lemma free_loop_plan: "free_loop b i hi m = Some m' \<Longrightarrow> plan m' = plan m"
proof (induction "nat (hi - i)" arbitrary: i m)
  case 0
  then show ?case by (subst (asm) free_loop.simps) simp
next
  case (Suc d)
  from Suc.hyps(2) have lt: "i < hi" by linarith
  from Suc.prems lt obtain m1 where f: "IGRAPH_FREE_slot b i m = Some m1"
    and r: "free_loop b (i + 1) hi m1 = Some m'"
    by (subst (asm) free_loop.simps) (auto split: option.splits)
  have "d = nat (hi - (i + 1))" using Suc.hyps(2) by linarith
  from Suc.hyps(1)[OF this r] IGRAPH_FREE_slot_D[OF f] show ?case
    by (auto simp: same_alloc_def)
qed

lemma resize_grow_loop_granted:
  "Fail \<notin> set (plan m) \<Longrightarrow> resize_grow_loop b oldsize toadd i m = Some (e, m') \<Longrightarrow>
   e = IGRAPH_SUCCESS \<and> Fail \<notin> set (plan m')"
proof (induction "nat (toadd - i)" arbitrary: i m)
  case 0
  then show ?case by (subst (asm) resize_grow_loop.simps) simp
next
  case (Suc d)
  from Suc.hyps(2) have lt: "i < toadd" by linarith
  obtain p m1 where c: "IGRAPH_CALLOC_char 1 m = (p, m1)" by (cases "IGRAPH_CALLOC_char 1 m")
  from calloc_char_D[OF c] have pl: "plan m1 = tl (plan m)"
    and pn: "p = Null \<longleftrightarrow> plan m \<noteq> [] \<and> hd (plan m) = Fail" by simp_all
  from granted_tl[OF Suc.prems(1) pl] pn have g1: "Fail \<notin> set (plan m1)" and nn: "p \<noteq> Null"
    by simp_all
  from Suc.prems(2) lt c nn obtain m2 m3 where st: "store m1 b (oldsize + i) p = Some m2"
    and sb: "store_byte p 0 NUL m2 = Some m3"
    and r: "resize_grow_loop b oldsize toadd (i + 1) m3 = Some (e, m')"
    by (subst (asm) resize_grow_loop.simps) (auto split: option.splits)
  have "plan m3 = plan m1" using store_frame[OF st] store_byte_plan[OF sb]
    by (simp add: same_alloc_def)
  with g1 have g3: "Fail \<notin> set (plan m3)" by simp
  have "d = nat (toadd - (i + 1))" using Suc.hyps(2) by linarith
  from Suc.hyps(1)[OF this g3 r] show ?case .
qed

lemma resize_granted:
  assumes "Fail \<notin> set (plan m)" "igraph_strvector_resize v newsize m = Some (e, v', m')"
    and "0 < top m"
  shows "e = IGRAPH_SUCCESS \<and> Fail \<notin> set (plan m')"
proof -
  from assms(2) obtain oldsize where s: "igraph_strvector_size v = Some oldsize"
    by (auto simp: igraph_strvector_resize_def split: option.splits)
  consider "newsize < oldsize" | "newsize > oldsize" | "newsize = oldsize" by linarith
  then show ?thesis
  proof cases
    case 1
    with assms(2) s obtain m1 where "free_loop (stor_begin v) newsize oldsize m = Some m1"
      "e = IGRAPH_SUCCESS" "m' = m1"
      by (auto simp: igraph_strvector_resize_def split: option.splits)
    with free_loop_plan[of "stor_begin v" newsize oldsize m m1] assms(1) show ?thesis by simp
  next
    case 2
    with assms(2) s obtain tmp m1 where rc: "IGRAPH_REALLOC_charp (stor_begin v) newsize m = Some (tmp, m1)"
      by (auto simp: igraph_strvector_resize_def split: option.splits)
    have bz: "stor_begin v \<noteq> 0" using s by (auto simp: igraph_strvector_size_def split: if_splits)
    from realloc_charp_D[OF rc] have pl: "plan m1 = tl (plan m)"
      and tz: "plan m \<noteq> [] \<and> hd (plan m) = Fail \<or> tmp = stor_begin v \<or> tmp = top m" by auto
    from granted_tl[OF assms(1) pl] tz bz assms(3)
    have g1: "Fail \<notin> set (plan m1)" and nz: "tmp \<noteq> 0" by auto
    from assms(2) s 2 rc nz obtain e1 m2 where
      "resize_grow_loop tmp oldsize (newsize - oldsize) 0 m1 = Some (e1, m2)" "e = e1" "m' = m2"
      by (auto simp: igraph_strvector_resize_def Let_def split: option.splits)
    with resize_grow_loop_granted[OF g1, of tmp oldsize "newsize - oldsize" 0 e1 m2] show ?thesis by simp
  next
    case 3
    with assms s show ?thesis by (auto simp: igraph_strvector_resize_def)
  qed
qed

lemma strdup_plan:
  assumes "strdup src m = Some (p, m1)"
  shows "plan m1 = tl (plan m) \<and> (p = Null \<longleftrightarrow> plan m \<noteq> [] \<and> hd (plan m) = Fail)"
proof -
  from assms have n: "NUL \<in> set src" by (auto simp: strdup_def split: if_splits)
  obtain r m0 where d: "draw m = (r, m0)" by (cases "draw m")
  note dd = draw_D[OF d]
  show ?thesis
  proof (cases "r = Fail")
    case True
    with assms d n have "p = Null" "m1 = m0" by (auto simp: strdup_def)
    with dd True show ?thesis by simp
  next
    case False
    with assms d n have "p = Str (top m0)"
      "m1 = m0\<lparr>bufs := (bufs m0)(top m0 \<mapsto> cstr src @ [NUL]), top := top m0 + 1\<rparr>"
      by (auto simp: strdup_def)
    with dd False show ?thesis by simp
  qed
qed

lemma append_loop_granted:
  "Fail \<notin> set (plan m) \<Longrightarrow> append_loop tb fb len1 len2 i m = Some (err, m') \<Longrightarrow> \<not> err"
proof (induction "nat (len2 - i)" arbitrary: i m)
  case 0
  then show ?case by (subst (asm) append_loop.simps) simp
next
  case (Suc d)
  from Suc.hyps(2) have lt: "i < len2" by linarith
  have d: "d = nat (len2 - (i + 1))" using Suc.hyps(2) by linarith
  from Suc.prems(2) lt obtain q c cs where q: "load m fb i = Some q" "deref m q = Some (c # cs)"
    by (subst (asm) append_loop.simps) (auto split: option.splits list.splits)
  show ?case
  proof (cases "c = NUL")
    case True
    with Suc.prems(2) lt q have "append_loop tb fb len1 len2 (i + 1) m = Some (err, m')"
      by (subst (asm) append_loop.simps) simp
    from Suc.hyps(1)[OF d Suc.prems(1) this] show ?thesis .
  next
    case False
    with Suc.prems(2) lt q obtain m1 src p m2 m3 where
      f: "IGRAPH_FREE_slot tb (len1 + i) m = Some m1"
      and sd: "strdup src m1 = Some (p, m2)"
      and st: "store m2 tb (len1 + i) p = Some m3"
      and r: "(if p = Null then Some (True, m3) else append_loop tb fb len1 len2 (i + 1) m3) = Some (err, m')"
      by (subst (asm) append_loop.simps) (auto split: option.splits)
    have p1: "plan m1 = plan m" using IGRAPH_FREE_slot_D[OF f] by (auto simp: same_alloc_def)
    note sp = strdup_plan[OF sd]
    from Suc.prems(1) p1 have g1: "Fail \<notin> set (plan m1)" by simp
    from sp have pl2: "plan m2 = tl (plan m1)" by simp
    from granted_tl[OF g1 pl2] sp have g2: "Fail \<notin> set (plan m2)" and nn: "p \<noteq> Null" by simp_all
    have "plan m3 = plan m2" using store_frame[OF st] by (simp add: same_alloc_def)
    with g2 have g3: "Fail \<notin> set (plan m3)" by simp
    from r nn have "append_loop tb fb len1 len2 (i + 1) m3 = Some (err, m')" by simp
    from Suc.hyps(1)[OF d g3 this] show ?thesis .
  qed
qed


section \<open>Add\<close>

text \<open>
  C1. A failed \<^verbatim>\<open>igraph_strvector_add\<close> is claimed to leave the size and the existing
  slots as they were. The code does not: on the one-element vector \<open>["a"]\<close> with no
  spare capacity, when the growth succeeds and the buffer for the new value cannot be
  allocated, \<^verbatim>\<open>add\<close> returns \<^verbatim>\<open>IGRAPH_ENOMEM\<close> with the size at 2, the value
  \<^verbatim>\<open>igraph_strvector_resize\<close> gave it, and a null handle in slot 1. This holds
  whichever way \<^verbatim>\<open>IGRAPH_FREE\<close> treats the handle.
\<close>

theorem add_failure_keeps_grown_size:
  "(case igraph_strvector_add (vec 1) (''b'' @ [NUL]) (vec_mem [''a''] [Inplace, Inplace, Fail] fc) of
      None \<Rightarrow> False
    | Some (e, v', m') \<Rightarrow>
        e = IGRAPH_ENOMEM \<and> igraph_strvector_size (vec 1) = Some 1 \<and>
        igraph_strvector_size v' = Some 2 \<and>
        handles v' m' = [Some (Str 100), Some Null] \<and>
        strings v' m' = [Some ''a'', None])"
  by (simp add: vec_ops loops mem_ops observers fixture eval_nat_numeral)

section \<open>Resize\<close>

text \<open>
  C3. When \<^verbatim>\<open>igraph_strvector_resize\<close> fails while it initialises the new slots, the
  slots it has initialised in this call are claimed to be released and no slot below
  the logical size to be null or dangling. The clean-up loop of the code tests and
  releases slot \<open>oldsize + i\<close>, the one whose allocation has just failed, on every
  round, so it releases nothing, and \<^verbatim>\<open>end\<close> has been moved to the new size before.
  Growing \<open>["a"]\<close> to size 4 with the second slot allocation failing returns
  \<^verbatim>\<open>IGRAPH_ENOMEM\<close> with size 4: slot 1 still owns the empty string allocated for it
  (address 200), slot 2 is null and slot 3 was never written.
\<close>

theorem resize_failure_releases_nothing:
  "(case igraph_strvector_resize (vec 1) 4 (vec_mem [''a''] [Inplace, Inplace, Fail] fc) of
      None \<Rightarrow> False
    | Some (e, v', m') \<Rightarrow>
        e = IGRAPH_ENOMEM \<and> igraph_strvector_size v' = Some 4 \<and>
        arrs m' (stor_begin v') = Some [Str 100, Str 200, Null, Uninit] \<and>
        bufs m' 200 = Some [NUL] \<and>
        strings v' m' = [Some ''a'', Some [], None, None])"
  by (simp add: vec_ops loops mem_ops observers fixture eval_nat_numeral)

section \<open>Initialize\<close>

text \<open>
  C9. When \<^verbatim>\<open>igraph_strvector_init\<close> fails at a slot, the slots allocated before are
  claimed to be released. The code calls \<^verbatim>\<open>igraph_strvector_destroy\<close>, whose loop runs
  up to \<^verbatim>\<open>sv->end\<close>; \<^verbatim>\<open>init\<close> sets that field only after its own loop, so the loop
  runs up to whatever the struct held before. On a zeroed struct and size 2, with the
  second slot allocation failing, the block (address 1) is released and the buffer of
  slot 0 (address 4) stays allocated with nothing left that points to it.
\<close>

theorem init_failure_leaks_slot:
  "(case igraph_strvector_init zeroed 2 (empty_mem [Inplace, Inplace, Fail] fc) of
      None \<Rightarrow> False
    | Some (e, v', m') \<Rightarrow>
        e = IGRAPH_ENOMEM \<and> bufs m' 4 = Some [NUL] \<and> arrs m' 1 = None)"
  by (simp add: vec_ops loops mem_ops observers fixture eval_nat_numeral)

section \<open>The order of the three pointers\<close>

text \<open>
  C10. Every operation is claimed to keep \<open>stor_begin \<le> end \<le> stor_end\<close>.
  \<^verbatim>\<open>igraph_strvector_add\<close> drops the result of \<^verbatim>\<open>igraph_strvector_resize\<close>: when the
  reallocation fails it writes slot \<open>old_size\<close> all the same and sets \<^verbatim>\<open>end\<close> one past
  it. Where the block is longer than the capacity recorded in the struct the write is
  inside the block, and \<^verbatim>\<open>add\<close> returns \<^verbatim>\<open>IGRAPH_SUCCESS\<close> with \<open>end > stor_end\<close>.
  Such a state arises from \<^verbatim>\<open>init\<close> with size 2 followed by \<^verbatim>\<open>permdelete\<close> of one
  element whose shrinking reallocation fails (which the code tolerates).
\<close>

theorem add_breaks_extents:
  "(case igraph_strvector_init zeroed 2
           (empty_mem [Inplace, Inplace, Inplace, Fail, Fail, Inplace] fc) of
      None \<Rightarrow> False
    | Some (e, v1, m1) \<Rightarrow>
        e = IGRAPH_SUCCESS \<and> extents_ok v1 \<and>
        (case igraph_strvector_permdelete v1 [1, 0] 1 m1 of
           None \<Rightarrow> False
         | Some (v2, m2) \<Rightarrow>
             extents_ok v2 \<and> igraph_strvector_size v2 = Some 1 \<and>
             (case igraph_strvector_add v2 (''x'' @ [NUL]) m2 of
                None \<Rightarrow> False
              | Some (e', v3, m3) \<Rightarrow>
                  e' = IGRAPH_SUCCESS \<and> \<not> extents_ok v3 \<and> stor_end v3 < endp v3)))"
  by (simp add: vec_ops loops mem_ops observers fixture eval_nat_numeral)

section \<open>RemoveRange\<close>

text \<open>
  C7. On a valid vector and \<open>0 \<le> from \<le> to \<le> size\<close>, \<^verbatim>\<open>igraph_strvector_remove_section\<close>
  returns; it releases the buffer of every slot in \<open>[from, to)\<close>, leaves the slots below
  \<open>from\<close> as they were, moves the handle of every slot \<open>i \<ge> to\<close> to slot
  \<open>i - (to - from)\<close> with its bytes untouched, and lowers the size by \<open>to - from\<close>.
  \<^verbatim>\<open>igraph_strvector_remove\<close> is the case \<open>to = from + 1\<close>.
\<close>

theorem remove_section_spec:
  assumes v: "valid v m" and r: "0 \<le> from" "from \<le> to" "to \<le> endp v - stor_begin v"
  shows "\<exists>v' m'. igraph_strvector_remove_section v from to m = Some (v', m') \<and>
           igraph_strvector_remove v from m = igraph_strvector_remove_section v from (from + 1) m \<and>
           igraph_strvector_size v' = Some (endp v - stor_begin v - (to - from)) \<and>
           (\<forall>i. from \<le> i \<and> i < to \<longrightarrow>
                (\<exists>a. load m (stor_begin v) i = Some (Str a) \<and> bufs m' a = None)) \<and>
           (\<forall>i. 0 \<le> i \<and> i < from \<longrightarrow>
                load m' (stor_begin v') i = load m (stor_begin v) i \<and>
                get_bytes v' i m' = get_bytes v i m) \<and>
           (\<forall>i. to \<le> i \<and> i < endp v - stor_begin v \<longrightarrow>
                load m' (stor_begin v') (i - (to - from)) = load m (stor_begin v) i \<and>
                get_bytes v' (i - (to - from)) m' = get_bytes v i m)"
proof -
  let ?b = "stor_begin v"
  let ?n = "endp v - ?b"
  note vb = valid_base[OF v]
  have live: "\<exists>a bs. load m ?b i = Some (Str a) \<and> bufs m a = Some bs \<and> NUL \<in> set bs"
    if "0 \<le> i" "i < ?n" for i using valid_D[OF v that] .
  have inj: "i = j" if "0 \<le> i" "i < ?n" "0 \<le> j" "j < ?n" "load m ?b i = load m ?b j" for i j
    using valid_inj[OF v that] .
  have ok: "load m ?b i = Some Null \<or> (\<exists>a. load m ?b i = Some (Str a) \<and> bufs m a \<noteq> None)"
    if "from \<le> i" "i < to" for i
    using live[of i] that r by auto
  have inj': "i = j" if "from \<le> i" "i < to" "from \<le> j" "j < to" "load m ?b i = load m ?b j"
    "load m ?b i \<noteq> Some Null" for i j
    using inj[of i j] that r by auto
  from free_loops_spec[of "from" to m ?b, OF ok inj'] obtain m1 where
    f: "free_nonnull_loop ?b from to m = Some m1" and bl1: "blen m1 = blen m" and sa1: "same_alloc m m1"
    and fr1: "\<And>b' j. \<not> (b' = ?b \<and> from \<le> j \<and> j < to) \<Longrightarrow> load m1 b' j = load m b' j"
    and bf1: "\<And>a. bufs m1 a =
              (if \<exists>i. from \<le> i \<and> i < to \<and> load m ?b i = Some (Str a) then None else bufs m a)"
    by blast
  obtain L where L: "blen m ?b = Some L" "?n \<le> L"
  proof (cases "0 < ?n")
    case True
    from live[of "?n - 1"] True obtain a where "load m ?b (?n - 1) = Some (Str a)" by auto
    from load_range[OF this] that show ?thesis by auto
  next
    case False
    with vb have z: "?n = 0" by simp
    from v obtain xs where "arrs m ?b = Some xs" by (auto simp: valid_def)
    then have "blen m ?b = Some (int (length xs))" by (simp add: blen_def)
    with z that show ?thesis by auto
  qed
  have bl1b: "blen m1 ?b = Some L" using bl1 L by simp
  have init: "\<exists>x. load m1 ?b j = Some x" if "to + (?b - ?b) \<le> j" "j < ?n" for j
  proof -
    have "load m1 ?b j = load m ?b j" using fr1[of ?b j] that by simp
    then show ?thesis using live[of j] that r by auto
  qed
  from shift_loop_spec[of m1 v L "from" to ?b, OF bl1b L(2) r(1) r(2) order_refl init]
  obtain m2 where sh: "shift_loop v from to ?b m1 = Some m2" and bf2: "bufs m2 = bufs m1"
    and fr2: "\<And>b' j. \<not> (b' = ?b \<and> from \<le> j \<and> j < from + (?n - to)) \<Longrightarrow> load m2 b' j = load m1 b' j"
    and mv2: "\<And>j. from \<le> j \<and> j < from + (?n - to) \<Longrightarrow> load m2 ?b j = load m1 ?b (j + (to - from))"
    by auto
  let ?v' = "v\<lparr>endp := endp v - (to - from)\<rparr>"
  have res: "igraph_strvector_remove_section v from to m = Some (?v', m2)"
    using vb f sh by (simp add: igraph_strvector_remove_section_def)
  have rm: "igraph_strvector_remove v from m = igraph_strvector_remove_section v from (from + 1) m"
    using vb by (simp add: igraph_strvector_remove_def)
  have sz: "igraph_strvector_size ?v' = Some (?n - (to - from))"
    using vb by (simp add: igraph_strvector_size_def)
  have keep: "bufs m2 a = bufs m a" if "load m ?b i = Some (Str a)" "0 \<le> i" "i < ?n" "i < from \<or> to \<le> i"
    for a i
  proof -
    have "\<not> (\<exists>i'. from \<le> i' \<and> i' < to \<and> load m ?b i' = Some (Str a))"
    proof
      assume "\<exists>i'. from \<le> i' \<and> i' < to \<and> load m ?b i' = Some (Str a)"
      then obtain i' where i': "from \<le> i'" "i' < to" "load m ?b i' = Some (Str a)" by blast
      then have "i = i'" using inj[of i i'] that r by simp
      with i' that show False by auto
    qed
    then show ?thesis using bf1[of a] bf2 by auto
  qed
  have c4: "\<forall>i. from \<le> i \<and> i < to \<longrightarrow> (\<exists>a. load m ?b i = Some (Str a) \<and> bufs m2 a = None)"
  proof (intro allI impI)
    fix i assume i: "from \<le> i \<and> i < to"
    from live[of i] i r obtain a where a: "load m ?b i = Some (Str a)" by auto
    with i have "\<exists>i'. from \<le> i' \<and> i' < to \<and> load m ?b i' = Some (Str a)" by blast
    then have "bufs m2 a = None" using bf1[of a] bf2 by simp
    with a show "\<exists>a. load m ?b i = Some (Str a) \<and> bufs m2 a = None" by blast
  qed
  have c5: "\<forall>i. 0 \<le> i \<and> i < from \<longrightarrow>
                load m2 (stor_begin ?v') i = load m ?b i \<and> get_bytes ?v' i m2 = get_bytes v i m"
  proof (intro allI impI)
    fix i assume i: "0 \<le> i \<and> i < from"
    have l: "load m2 ?b i = load m ?b i" using fr2[of ?b i] fr1[of ?b i] i by simp
    have "get_bytes ?v' i m2 = get_bytes v i m"
      by (rule get_bytes_eq) (use l keep[of i] i r in auto)
    with l show "load m2 (stor_begin ?v') i = load m ?b i \<and> get_bytes ?v' i m2 = get_bytes v i m"
      by simp
  qed
  have c6: "\<forall>i. to \<le> i \<and> i < ?n \<longrightarrow>
                load m2 (stor_begin ?v') (i - (to - from)) = load m ?b i \<and>
                get_bytes ?v' (i - (to - from)) m2 = get_bytes v i m"
  proof (intro allI impI)
    fix i assume i: "to \<le> i \<and> i < ?n"
    have "load m2 ?b (i - (to - from)) = load m1 ?b (i - (to - from) + (to - from))"
      using mv2[of "i - (to - from)"] i by simp
    also have "\<dots> = load m1 ?b i" by simp
    also have "\<dots> = load m ?b i" using fr1[of ?b i] i by simp
    finally have l: "load m2 ?b (i - (to - from)) = load m ?b i" .
    have "get_bytes ?v' (i - (to - from)) m2 = get_bytes v i m"
      by (rule get_bytes_eq) (use l keep[of i] i r in auto)
    with l show "load m2 (stor_begin ?v') (i - (to - from)) = load m ?b i \<and>
                get_bytes ?v' (i - (to - from)) m2 = get_bytes v i m" by simp
  qed
  from res rm sz c4 c5 c6 show ?thesis by (intro exI[of _ ?v'] exI[of _ m2]) simp
qed

text \<open>The example of the specification: removing \<open>[1, 3)\<close> from \<open>["a","b","c","d"]\<close>.\<close>

theorem remove_section_witness:
  "valid (vec 4) (vec_mem [''a'', ''b'', ''c'', ''d''] [] True) \<and>
   (case igraph_strvector_remove_section (vec 4) 1 3 (vec_mem [''a'', ''b'', ''c'', ''d''] [] True) of
      None \<Rightarrow> False
    | Some (v', m') \<Rightarrow> igraph_strvector_size v' = Some 2 \<and> strings v' m' = [Some ''a'', Some ''d''] \<and>
        bufs m' 101 = None \<and> bufs m' 102 = None)"
proof -
  have h: "valid (vec 4) (vec_mem [''a'', ''b'', ''c'', ''d''] [] True)"
    by (simp add: observers fixture mem_ops eval_nat_numeral)
  show ?thesis using h remove_section_spec[OF h, of 1 3]
    by (simp add: vec_ops loops mem_ops observers fixture eval_nat_numeral)
qed

section \<open>Set followed by Get\<close>

lemma realloc_char_Some:
  "bufs m a = Some bs \<Longrightarrow> \<exists>p m1. IGRAPH_REALLOC_char (Str a) n m = Some (p, m1)"
  by (auto simp: IGRAPH_REALLOC_char_def Let_def split: prod.splits)

lemma set_slot_returns:
  assumes l: "load m (stor_begin sv) idx = Some (Str a)" and b: "bufs m a = Some bs"
  shows "\<exists>e m1. set_slot sv idx n m = Some (e, m1) \<and>
           (e = IGRAPH_SUCCESS \<longleftrightarrow> fst (draw m) \<noteq> Fail)"
proof -
  from realloc_char_Some[OF b, of n] obtain tmp m0 where
    rc: "IGRAPH_REALLOC_char (Str a) n m = Some (tmp, m0)" by blast
  from realloc_char_D[OF rc] have ar: "arrs m0 = arrs m"
    and tn: "tmp = Null \<longleftrightarrow> plan m \<noteq> [] \<and> hd (plan m) = Fail" by auto
  have tf: "tmp = Null \<longleftrightarrow> fst (draw m) = Fail" using tn by (simp add: draw_Fail)
  show ?thesis
  proof (cases "tmp = Null")
    case True
    with l rc have "set_slot sv idx n m = Some (IGRAPH_ENOMEM, m0)" by (simp add: set_slot_def)
    with True tf show ?thesis by simp
  next
    case False
    from load_range[OF l] obtain L where L: "blen m (stor_begin sv) = Some L" "0 \<le> idx" "idx < L"
      by blast
    have "blen m0 = blen m" using arrs_eq_load[OF ar] by simp
    with L store_Some[of m0 "stor_begin sv" L idx tmp] obtain m1 where
      st: "store m0 (stor_begin sv) idx tmp = Some m1" by auto
    with l rc False have "set_slot sv idx n m = Some (IGRAPH_SUCCESS, m1)" by (simp add: set_slot_def)
    with False tf show ?thesis by simp
  qed
qed

text \<open>
  What a successful call has stored does not depend on the vector being valid: a slot
  holding a null handle is given a new buffer.
\<close>

lemma set2_success_stores:
  assumes a: "igraph_strvector_set2 sv idx (s @ rest) (length s) m = Some (IGRAPH_SUCCESS, m')"
  shows "get_bytes sv idx m' = Some (s @ [NUL])"
proof -
  from a obtain m1 where s1: "set_slot sv idx (int (length s) + 1) m = Some (IGRAPH_SUCCESS, m1)"
    and nz: "stor_begin sv \<noteq> 0"
    by (auto simp: igraph_strvector_set2_def split: option.splits if_splits)
  from set_slot_success[OF s1] obtain a' bs where
    l: "load m1 (stor_begin sv) idx = Some (Str a')" and b: "bufs m1 a' = Some bs"
    and len: "length bs = length s + 1"
    by (auto simp: slots_of_def nat_add_distrib)
  from memcpy_terminate[OF b len, of rest] obtain m2 m3 where
    "memcpy (Str a') (s @ rest) (length s) m1 = Some m2"
    "store_byte (Str a') (length s) NUL m2 = Some m3"
    "bufs m3 = (bufs m1)(a' \<mapsto> s @ [NUL])" "load m3 = load m1" by blast
  with a s1 nz l have "m' = m3"
    by (auto simp: igraph_strvector_set2_def split: option.splits if_splits)
  with \<open>bufs m3 = _\<close> \<open>load m3 = _\<close> l nz show "get_bytes sv idx m' = Some (s @ [NUL])"
    by (simp add: get_bytes_def igraph_strvector_get_def deref_def)
qed

lemma set_success_stores:
  assumes ns: "NUL \<notin> set s"
    and a: "igraph_strvector_set sv idx (s @ NUL # rest) m = Some (IGRAPH_SUCCESS, m')"
  shows "get_bytes sv idx m' = Some (s @ [NUL])"
proof -
  have cs: "cstr (s @ NUL # rest) = s" using ns by (simp add: cstr_def takeWhile_append)
  have sl: "strlen (s @ NUL # rest) = Some (length s)" by (simp add: strlen_def cs)
  from a sl obtain m1 where s1: "set_slot sv idx (int (length s) + 1) m = Some (IGRAPH_SUCCESS, m1)"
    and nz: "stor_begin sv \<noteq> 0"
    by (auto simp: igraph_strvector_set_def split: option.splits if_splits)
  from set_slot_success[OF s1] obtain a' bs where
    l: "load m1 (stor_begin sv) idx = Some (Str a')" and b: "bufs m1 a' = Some bs"
    and len: "length bs = length s + 1"
    by (auto simp: slots_of_def nat_add_distrib)
  from strcpy_whole[OF b len ns, of rest] obtain m2 where
    "strcpy (Str a') (s @ NUL # rest) m1 = Some m2"
    "bufs m2 = (bufs m1)(a' \<mapsto> s @ [NUL])" "load m2 = load m1" by blast
  with a s1 nz l sl have "m' = m2"
    by (auto simp: igraph_strvector_set_def split: option.splits if_splits)
  with \<open>bufs m2 = _\<close> \<open>load m2 = _\<close> l nz show "get_bytes sv idx m' = Some (s @ [NUL])"
    by (simp add: get_bytes_def igraph_strvector_get_def deref_def)
qed

lemma set2_returns:
  assumes v: "valid sv m" and i: "0 \<le> idx" "idx < endp sv - stor_begin sv"
  shows "\<exists>e m'. igraph_strvector_set2 sv idx (s @ rest) (length s) m = Some (e, m') \<and>
           (e = IGRAPH_SUCCESS \<longleftrightarrow> fst (draw m) \<noteq> Fail)"
proof -
  note vb = valid_base[OF v]
  from valid_D[OF v i] obtain a bs where l: "load m (stor_begin sv) idx = Some (Str a)"
    and b: "bufs m a = Some bs" by blast
  from set_slot_returns[OF l b, of "int (length s) + 1"] obtain e1 m1 where
    ss: "set_slot sv idx (int (length s) + 1) m = Some (e1, m1)"
    and ee: "e1 = IGRAPH_SUCCESS \<longleftrightarrow> fst (draw m) \<noteq> Fail" by blast
  have rng: "\<not> (idx < 0 \<or> idx \<ge> stor_end sv - stor_begin sv)" using vb i by simp
  show ?thesis
  proof (cases "e1 = IGRAPH_SUCCESS")
    case False
    with ss rng vb have "igraph_strvector_set2 sv idx (s @ rest) (length s) m = Some (e1, m1)"
      by (simp add: igraph_strvector_set2_def)
    with ee show ?thesis by simp
  next
    case True
    with ss have s1: "set_slot sv idx (int (length s) + 1) m = Some (IGRAPH_SUCCESS, m1)" by simp
    from set_slot_success[OF s1] obtain a' bs' where
      l1: "load m1 (stor_begin sv) idx = Some (Str a')" and b1: "bufs m1 a' = Some bs'"
      and len: "length bs' = length s + 1"
      by (auto simp: slots_of_def nat_add_distrib)
    from memcpy_terminate[OF b1 len, of rest] obtain m2 m3 where
      "memcpy (Str a') (s @ rest) (length s) m1 = Some m2"
      "store_byte (Str a') (length s) NUL m2 = Some m3" by blast
    with s1 l1 rng vb have "igraph_strvector_set2 sv idx (s @ rest) (length s) m = Some (IGRAPH_SUCCESS, m3)"
      by (simp add: igraph_strvector_set2_def)
    with ee True show ?thesis by simp
  qed
qed

lemma set_returns:
  assumes v: "valid sv m" and i: "0 \<le> idx" "idx < endp sv - stor_begin sv" and ns: "NUL \<notin> set s"
  shows "\<exists>e m'. igraph_strvector_set sv idx (s @ NUL # rest) m = Some (e, m') \<and>
           (e = IGRAPH_SUCCESS \<longleftrightarrow> fst (draw m) \<noteq> Fail)"
proof -
  note vb = valid_base[OF v]
  have cs: "cstr (s @ NUL # rest) = s" using ns by (simp add: cstr_def takeWhile_append)
  have sl: "strlen (s @ NUL # rest) = Some (length s)" by (simp add: strlen_def cs)
  from valid_D[OF v i] obtain a bs where l: "load m (stor_begin sv) idx = Some (Str a)"
    and b: "bufs m a = Some bs" by blast
  from set_slot_returns[OF l b, of "int (length s) + 1"] obtain e1 m1 where
    ss: "set_slot sv idx (int (length s) + 1) m = Some (e1, m1)"
    and ee: "e1 = IGRAPH_SUCCESS \<longleftrightarrow> fst (draw m) \<noteq> Fail" by blast
  show ?thesis
  proof (cases "e1 = IGRAPH_SUCCESS")
    case False
    with ss sl vb have "igraph_strvector_set sv idx (s @ NUL # rest) m = Some (e1, m1)"
      by (simp add: igraph_strvector_set_def)
    with ee show ?thesis by simp
  next
    case True
    with ss have s1: "set_slot sv idx (int (length s) + 1) m = Some (IGRAPH_SUCCESS, m1)" by simp
    from set_slot_success[OF s1] obtain a' bs' where
      l1: "load m1 (stor_begin sv) idx = Some (Str a')" and b1: "bufs m1 a' = Some bs'"
      and len: "length bs' = length s + 1"
      by (auto simp: slots_of_def nat_add_distrib)
    from strcpy_whole[OF b1 len ns, of rest] obtain m2 where
      "strcpy (Str a') (s @ NUL # rest) m1 = Some m2" by blast
    with s1 l1 sl vb have "igraph_strvector_set sv idx (s @ NUL # rest) m = Some (IGRAPH_SUCCESS, m2)"
      by (simp add: igraph_strvector_set_def)
    with ee True show ?thesis by simp
  qed
qed

text \<open>
  C8. For a valid vector, an index within \<open>[0, size)\<close> and any bytes \<open>s\<close>:
  \<^verbatim>\<open>igraph_strvector_set2\<close>, given a pointer to \<open>s\<close> (followed by anything) and the
  length of \<open>s\<close>, returns; it returns \<^verbatim>\<open>IGRAPH_SUCCESS\<close> exactly when the allocator does
  not fail the one request it makes; and when it has returned \<^verbatim>\<open>IGRAPH_SUCCESS\<close>, the
  pointer that \<^verbatim>\<open>igraph_strvector_get\<close> yields afterwards points to a buffer holding
  exactly the bytes of \<open>s\<close> and then the terminator, zero bytes inside \<open>s\<close> included.
  The same holds for \<^verbatim>\<open>igraph_strvector_set\<close> given a zero-terminated \<open>s\<close>, which then
  has no zero byte inside.
\<close>

theorem set_then_get:
  assumes v: "valid sv m" and i: "0 \<le> idx" "idx < endp sv - stor_begin sv"
  shows "(\<exists>e m'. igraph_strvector_set2 sv idx (s @ rest) (length s) m = Some (e, m') \<and>
            (e = IGRAPH_SUCCESS \<longleftrightarrow> fst (draw m) \<noteq> Fail) \<and>
            (e = IGRAPH_SUCCESS \<longrightarrow> get_bytes sv idx m' = Some (s @ [NUL]))) \<and>
         (NUL \<notin> set s \<longrightarrow>
            (\<exists>e m'. igraph_strvector_set sv idx (s @ NUL # rest) m = Some (e, m') \<and>
               (e = IGRAPH_SUCCESS \<longleftrightarrow> fst (draw m) \<noteq> Fail) \<and>
               (e = IGRAPH_SUCCESS \<longrightarrow> get_bytes sv idx m' = Some (s @ [NUL]))))"
proof (intro conjI impI)
  from set2_returns[OF v i, of s rest] obtain e m' where
    r: "igraph_strvector_set2 sv idx (s @ rest) (length s) m = Some (e, m')"
    and ee: "e = IGRAPH_SUCCESS \<longleftrightarrow> fst (draw m) \<noteq> Fail" by blast
  have "e = IGRAPH_SUCCESS \<longrightarrow> get_bytes sv idx m' = Some (s @ [NUL])"
    using r set2_success_stores[of sv idx s rest m m'] by simp
  with r ee show "\<exists>e m'. igraph_strvector_set2 sv idx (s @ rest) (length s) m = Some (e, m') \<and>
            (e = IGRAPH_SUCCESS \<longleftrightarrow> fst (draw m) \<noteq> Fail) \<and>
            (e = IGRAPH_SUCCESS \<longrightarrow> get_bytes sv idx m' = Some (s @ [NUL]))" by blast
next
  assume ns: "NUL \<notin> set s"
  from set_returns[OF v i ns, of rest] obtain e m' where
    r: "igraph_strvector_set sv idx (s @ NUL # rest) m = Some (e, m')"
    and ee: "e = IGRAPH_SUCCESS \<longleftrightarrow> fst (draw m) \<noteq> Fail" by blast
  have "e = IGRAPH_SUCCESS \<longrightarrow> get_bytes sv idx m' = Some (s @ [NUL])"
    using r set_success_stores[OF ns, of sv idx rest m m'] by simp
  with r ee show "\<exists>e m'. igraph_strvector_set sv idx (s @ NUL # rest) m = Some (e, m') \<and>
               (e = IGRAPH_SUCCESS \<longleftrightarrow> fst (draw m) \<noteq> Fail) \<and>
               (e = IGRAPH_SUCCESS \<longrightarrow> get_bytes sv idx m' = Some (s @ [NUL]))" by blast
qed

text \<open>
  Storing the three bytes \<open>x, 0, y\<close> with the explicit-length form, the empty string
  with the other (the buffer moving), and a call whose reallocation fails.
\<close>

theorem set_then_get_witness:
  "valid (vec 2) (vec_mem [''a'', ''b''] [] True) \<and> (0::int) \<le> 1 \<and>
   1 < endp (vec 2) - stor_begin (vec 2) \<and>
   (case igraph_strvector_set2 (vec 2) 1 [CHR ''x'', NUL, CHR ''y'', CHR ''z''] 3
           (vec_mem [''a'', ''b''] [] True) of
      None \<Rightarrow> False
    | Some (e, m') \<Rightarrow>
        e = IGRAPH_SUCCESS \<and> get_bytes (vec 2) 1 m' = Some [CHR ''x'', NUL, CHR ''y'', NUL]) \<and>
   (case igraph_strvector_set (vec 2) 1 [NUL, CHR ''q''] (vec_mem [''a'', ''b''] [Moved] True) of
      None \<Rightarrow> False
    | Some (e, m') \<Rightarrow> e = IGRAPH_SUCCESS \<and> get_bytes (vec 2) 1 m' = Some [NUL]) \<and>
   (case igraph_strvector_set2 (vec 2) 1 [CHR ''x''] 1 (vec_mem [''a'', ''b''] [Fail] True) of
      None \<Rightarrow> False
    | Some (e, m') \<Rightarrow> e = IGRAPH_ENOMEM \<and> get_bytes (vec 2) 1 m' = Some [CHR ''b'', NUL])"
proof -
  have v: "valid (vec 2) (vec_mem [''a'', ''b''] pl True)" for pl
    by (simp add: observers fixture mem_ops eval_nat_numeral)
  have i: "(0::int) \<le> 1" "1 < endp (vec 2) - stor_begin (vec 2)" by (simp_all add: fixture)
  show ?thesis
    using v i set_then_get[OF v i, of "[CHR ''x'', NUL, CHR ''y'']" "[CHR ''z'']" "[]"]
      set_then_get[OF v i, of "[]" "[CHR ''q'']" "[Moved]"]
      set_then_get[OF v i, of "[CHR ''x'']" "[]" "[Fail]"]
    by (simp add: vec_ops loops mem_ops observers fixture eval_nat_numeral)
qed

section \<open>Set and the bounds of the index\<close>

text \<open>
  C4, as the code has it. \<^verbatim>\<open>igraph_strvector_set2\<close> tests the index against the capacity
  \<open>stor_end - stor_begin\<close>, not against the size: outside \<open>[0, capacity)\<close> it returns
  \<^verbatim>\<open>IGRAPH_EINVAL\<close> and leaves the store as it was, inside it never returns that code;
  so it never does for an index within \<open>[0, size)\<close> of a vector whose extents are
  ordered. \<^verbatim>\<open>igraph_strvector_set\<close> has no test of the index and never returns that
  code.
\<close>

theorem set_bounds:
  "(idx < 0 \<or> stor_end sv - stor_begin sv \<le> idx \<longrightarrow>
      igraph_strvector_set2 sv idx val len m = Some (IGRAPH_EINVAL, m)) \<and>
   (0 \<le> idx \<and> idx < stor_end sv - stor_begin sv \<longrightarrow>
      (\<forall>e m'. igraph_strvector_set2 sv idx val len m = Some (e, m') \<longrightarrow> e \<noteq> IGRAPH_EINVAL)) \<and>
   (extents_ok sv \<and> 0 \<le> idx \<and> idx < endp sv - stor_begin sv \<longrightarrow>
      (\<forall>e m'. igraph_strvector_set2 sv idx val len m = Some (e, m') \<longrightarrow> e \<noteq> IGRAPH_EINVAL)) \<and>
   (\<forall>e m'. igraph_strvector_set sv idx val m = Some (e, m') \<longrightarrow> e \<noteq> IGRAPH_EINVAL)"
proof -
  have ss: "set_slot sv idx n m \<noteq> Some (IGRAPH_EINVAL, m1)" for n m1
    by (auto simp: set_slot_def Let_def split: option.splits if_splits prod.splits)
  have s2: "e \<noteq> IGRAPH_EINVAL"
    if "igraph_strvector_set2 sv idx val len m = Some (e, m')" "0 \<le> idx"
       "idx < stor_end sv - stor_begin sv" for e m'
    using that ss by (auto simp: igraph_strvector_set2_def split: option.splits if_splits)
  have s1: "e \<noteq> IGRAPH_EINVAL" if "igraph_strvector_set sv idx val m = Some (e, m')" for e m'
    using that ss by (auto simp: igraph_strvector_set_def split: option.splits if_splits)
  have s0: "igraph_strvector_set2 sv idx val len m = Some (IGRAPH_EINVAL, m)"
    if "idx < 0 \<or> stor_end sv - stor_begin sv \<le> idx"
    using that by (auto simp: igraph_strvector_set2_def)
  show ?thesis using s0 s1 s2 by (auto simp: extents_ok_def)
qed

theorem set_bounds_witness:
  "igraph_strvector_set2 (vec 2) 5 ''zz'' 2 (vec_mem [''a'', ''b''] [] True) =
     Some (IGRAPH_EINVAL, vec_mem [''a'', ''b''] [] True) \<and>
   extents_ok (vec 2) \<and>
   map_option fst (igraph_strvector_set2 (vec 2) 1 ''zz'' 2 (vec_mem [''a'', ''b''] [] True)) =
     Some IGRAPH_SUCCESS \<and>
   map_option fst (igraph_strvector_set (vec 2) 1 (''zz'' @ [NUL]) (vec_mem [''a'', ''b''] [] True)) =
     Some IGRAPH_SUCCESS"
  using set_bounds[of 5 "vec 2" "''zz''" 2 "vec_mem [''a'', ''b''] [] True"]
        set_bounds[of 1 "vec 2" "''zz''" 2 "vec_mem [''a'', ''b''] [] True"]
  by (simp add: vec_ops loops mem_ops observers fixture eval_nat_numeral)

text \<open>
  The claim as stated fails for an index in \<open>[size, capacity)\<close>. After
  \<^verbatim>\<open>igraph_strvector_remove_section\<close> of \<open>[0, 1)\<close> on \<open>["a","b"]\<close> the size is 1 and the
  capacity 2, and slot 1 still holds the handle that was moved to slot 0. Both forms of
  Set at index 1 return \<^verbatim>\<open>IGRAPH_SUCCESS\<close>, and the write goes to the buffer slot 0
  owns: element 0 reads \<open>"zz"\<close> afterwards.
\<close>

theorem set_bounds_counterexample:
  "(case igraph_strvector_remove_section (vec 2) 0 1 (vec_mem [''a'', ''b''] [] True) of
      None \<Rightarrow> False
    | Some (v1, m1) \<Rightarrow>
        igraph_strvector_size v1 = Some 1 \<and> strings v1 m1 = [Some ''b''] \<and>
        (case igraph_strvector_set2 v1 1 ''zz'' 2 m1 of
           None \<Rightarrow> False
         | Some (e, m2) \<Rightarrow> e = IGRAPH_SUCCESS \<and> strings v1 m2 = [Some ''zz'']) \<and>
        (case igraph_strvector_set v1 1 (''zz'' @ [NUL]) m1 of
           None \<Rightarrow> False
         | Some (e, m2) \<Rightarrow> e = IGRAPH_SUCCESS \<and> strings v1 m2 = [Some ''zz''])) \<and>
   (case igraph_strvector_remove_section (vec 2) 0 1 (vec_mem [''a'', ''b''] [] False) of
      None \<Rightarrow> False
    | Some (v1, m1) \<Rightarrow>
        igraph_strvector_size v1 = Some 1 \<and> strings v1 m1 = [Some ''b''] \<and>
        (case igraph_strvector_set2 v1 1 ''zz'' 2 m1 of
           None \<Rightarrow> False
         | Some (e, m2) \<Rightarrow> e = IGRAPH_SUCCESS \<and> strings v1 m2 = [Some ''zz'']) \<and>
        (case igraph_strvector_set v1 1 (''zz'' @ [NUL]) m1 of
           None \<Rightarrow> False
         | Some (e, m2) \<Rightarrow> e = IGRAPH_SUCCESS \<and> strings v1 m2 = [Some ''zz'']))"
  by (simp add: vec_ops loops mem_ops observers fixture eval_nat_numeral)

section \<open>MoveInterval\<close>





section \<open>PermutationCompact\<close>

lemma permdelete_loop_spec:
  assumes nz: "stor_begin v \<noteq> 0" and i0: "0 \<le> i"
    and bl: "blen m (stor_begin v) = Some L" "endp v - stor_begin v \<le> L"
    and len: "int (length index) = endp v - stor_begin v"
    and cp: "compacting index limit"
    and live: "\<And>k. i \<le> k \<Longrightarrow> k < endp v - stor_begin v \<Longrightarrow>
                 \<exists>a. load m (stor_begin v) k = Some (Str a) \<and> bufs m a \<noteq> None"
    and inj: "\<And>k k'. i \<le> k \<Longrightarrow> k < endp v - stor_begin v \<Longrightarrow> i \<le> k' \<Longrightarrow>
                 k' < endp v - stor_begin v \<Longrightarrow>
                 load m (stor_begin v) k = load m (stor_begin v) k' \<Longrightarrow> k = k'"
  shows "\<exists>m'. permdelete_loop v index i m = Some m' \<and> blen m' = blen m \<and> same_alloc m m' \<and>
           (\<forall>k. i \<le> k \<and> k < endp v - stor_begin v \<and> index ! nat k \<noteq> 0 \<longrightarrow>
                load m' (stor_begin v) (index ! nat k - 1) = load m (stor_begin v) k) \<and>
           (\<forall>b' j. \<not> (b' = stor_begin v \<and>
                       (\<exists>k. i \<le> k \<and> k < endp v - stor_begin v \<and>
                            (if index ! nat k = 0 then j = k else j = index ! nat k - 1))) \<longrightarrow>
                  load m' b' j = load m b' j) \<and>
           (\<forall>a. bufs m' a =
              (if \<exists>k. i \<le> k \<and> k < endp v - stor_begin v \<and> index ! nat k = 0 \<and>
                       load m (stor_begin v) k = Some (Str a)
               then None else bufs m a))"
  using i0 bl live inj
proof (induction "nat (endp v - stor_begin v - i)" arbitrary: i m)
  case 0
  then have "\<not> i < endp v - stor_begin v" by simp
  then show ?case using nz
    by (subst permdelete_loop.simps) (auto simp: igraph_strvector_size_def)
next
  case (Suc d)
  let ?b = "stor_begin v"
  let ?n = "endp v - ?b"
  let ?d = "\<lambda>k. index ! nat k"
  from Suc.hyps(2) have lt: "i < ?n" by linarith
  have vi: "VECTOR index i = Some (?d i)" using VECTOR_Some[of i index] Suc.prems(1) lt len by simp
  from Suc.prems(4)[of i] lt obtain a where la: "load m ?b i = Some (Str a)" and ba: "bufs m a \<noteq> None"
    by auto
  have d': "d = nat (?n - (i + 1))" using Suc.hyps(2) by linarith
  have i1: "0 \<le> i + 1" using Suc.prems(1) by simp
  show ?case
  proof (cases "?d i = 0")
    case True
    from IGRAPH_FREE_slot_Some[OF la] ba obtain m1 where f: "IGRAPH_FREE_slot ?b i m = Some m1"
      by blast
    from IGRAPH_FREE_slot_D[OF f] la have
      b1: "bufs m1 = (bufs m)(a := None)" and bl1: "blen m1 = blen m" and sa1: "same_alloc m m1"
      and fr1: "\<And>b' j. b' \<noteq> ?b \<or> j \<noteq> i \<Longrightarrow> load m1 b' j = load m b' j"
      by (auto simp: released_def)
    have live1: "\<exists>a. load m1 ?b k = Some (Str a) \<and> bufs m1 a \<noteq> None" if k: "i + 1 \<le> k" "k < ?n" for k
    proof -
      from Suc.prems(4)[of k] k obtain a' where a': "load m ?b k = Some (Str a')" "bufs m a' \<noteq> None"
        by auto
      have "a' \<noteq> a"
      proof
        assume "a' = a"
        with a' la have "load m ?b k = load m ?b i" by simp
        with Suc.prems(5)[of k i] k lt show False by simp
      qed
      with a' b1 fr1[of ?b k] k show ?thesis by simp
    qed
    have inj1: "k = k'" if "i + 1 \<le> k" "k < ?n" "i + 1 \<le> k'" "k' < ?n" "load m1 ?b k = load m1 ?b k'"
      for k k'
    proof -
      have "load m ?b k = load m ?b k'" using fr1[of ?b k] fr1[of ?b k'] that by simp
      with Suc.prems(5)[of k k'] that show ?thesis by simp
    qed
    have bl1b: "blen m1 ?b = Some L" using bl1 Suc.prems(2) by simp
    from Suc.hyps(1)[OF d' i1 bl1b Suc.prems(3) live1 inj1] obtain m' where
      r: "permdelete_loop v index (i + 1) m1 = Some m'" and bl': "blen m' = blen m1"
      and sa': "same_alloc m1 m'"
      and mv': "\<And>k. i + 1 \<le> k \<and> k < ?n \<and> ?d k \<noteq> 0 \<Longrightarrow> load m' ?b (?d k - 1) = load m1 ?b k"
      and fr': "\<And>b' j. \<not> (b' = ?b \<and> (\<exists>k. i + 1 \<le> k \<and> k < ?n \<and>
                            (if ?d k = 0 then j = k else j = ?d k - 1))) \<Longrightarrow>
                  load m' b' j = load m1 b' j"
      and bf': "\<And>a. bufs m' a =
              (if \<exists>k. i + 1 \<le> k \<and> k < ?n \<and> ?d k = 0 \<and> load m1 ?b k = Some (Str a)
               then None else bufs m1 a)"
      by blast
    have e: "permdelete_loop v index i m = Some m'"
      by (subst permdelete_loop.simps) (simp add: igraph_strvector_size_def nz lt vi True f r)
    have c1: "\<forall>k. i \<le> k \<and> k < ?n \<and> ?d k \<noteq> 0 \<longrightarrow> load m' ?b (?d k - 1) = load m ?b k"
    proof (intro allI impI)
      fix k assume k: "i \<le> k \<and> k < ?n \<and> ?d k \<noteq> 0"
      with True have "k \<noteq> i" by auto
      with k have kk: "i + 1 \<le> k \<and> k < ?n \<and> ?d k \<noteq> 0" by simp
      from mv'[OF kk] fr1[of ?b k] \<open>k \<noteq> i\<close> show "load m' ?b (?d k - 1) = load m ?b k" by simp
    qed
    have c2: "\<forall>b' j. \<not> (b' = ?b \<and> (\<exists>k. i \<le> k \<and> k < ?n \<and>
                            (if ?d k = 0 then j = k else j = ?d k - 1))) \<longrightarrow>
                  load m' b' j = load m b' j"
    proof (intro allI impI)
      fix b' j assume n: "\<not> (b' = ?b \<and> (\<exists>k. i \<le> k \<and> k < ?n \<and>
                            (if ?d k = 0 then j = k else j = ?d k - 1)))"
      have "\<not> (b' = ?b \<and> (\<exists>k. i + 1 \<le> k \<and> k < ?n \<and> (if ?d k = 0 then j = k else j = ?d k - 1)))"
      proof
        assume "b' = ?b \<and> (\<exists>k. i + 1 \<le> k \<and> k < ?n \<and> (if ?d k = 0 then j = k else j = ?d k - 1))"
        then obtain k where "b' = ?b" "i + 1 \<le> k" "k < ?n" "if ?d k = 0 then j = k else j = ?d k - 1"
          by blast
        then have "b' = ?b \<and> (\<exists>k. i \<le> k \<and> k < ?n \<and> (if ?d k = 0 then j = k else j = ?d k - 1))"
          by (intro conjI exI[of _ k]) auto
        with n show False by blast
      qed
      then have "load m' b' j = load m1 b' j" by (rule fr')
      moreover have "b' \<noteq> ?b \<or> j \<noteq> i"
      proof (rule ccontr)
        assume "\<not> (b' \<noteq> ?b \<or> j \<noteq> i)"
        then have "b' = ?b \<and> (\<exists>k. i \<le> k \<and> k < ?n \<and> (if ?d k = 0 then j = k else j = ?d k - 1))"
          using True lt by (intro conjI exI[of _ i]) auto
        with n show False by blast
      qed
      then have "load m1 b' j = load m b' j" by (rule fr1)
      ultimately show "load m' b' j = load m b' j" by simp
    qed
    have c3: "\<forall>a'. bufs m' a' =
              (if \<exists>k. i \<le> k \<and> k < ?n \<and> ?d k = 0 \<and> load m ?b k = Some (Str a')
               then None else bufs m a')"
    proof
      fix a'
      have ex: "(\<exists>k. i \<le> k \<and> k < ?n \<and> ?d k = 0 \<and> load m ?b k = Some (Str a')) \<longleftrightarrow>
                a' = a \<or> (\<exists>k. i + 1 \<le> k \<and> k < ?n \<and> ?d k = 0 \<and> load m1 ?b k = Some (Str a'))"
      proof
        assume "\<exists>k. i \<le> k \<and> k < ?n \<and> ?d k = 0 \<and> load m ?b k = Some (Str a')"
        then obtain k where k: "i \<le> k" "k < ?n" "?d k = 0" "load m ?b k = Some (Str a')" by blast
        show "a' = a \<or> (\<exists>k. i + 1 \<le> k \<and> k < ?n \<and> ?d k = 0 \<and> load m1 ?b k = Some (Str a'))"
        proof (cases "k = i")
          case True with k la show ?thesis by simp
        next
          case False
          then have "i + 1 \<le> k \<and> k < ?n \<and> ?d k = 0 \<and> load m1 ?b k = Some (Str a')"
            using k fr1[of ?b k] by simp
          then show ?thesis by blast
        qed
      next
        assume "a' = a \<or> (\<exists>k. i + 1 \<le> k \<and> k < ?n \<and> ?d k = 0 \<and> load m1 ?b k = Some (Str a'))"
        then show "\<exists>k. i \<le> k \<and> k < ?n \<and> ?d k = 0 \<and> load m ?b k = Some (Str a')"
        proof
          assume "a' = a"
          with la lt True show ?thesis by (intro exI[of _ i]) auto
        next
          assume "\<exists>k. i + 1 \<le> k \<and> k < ?n \<and> ?d k = 0 \<and> load m1 ?b k = Some (Str a')"
          then obtain k where k: "i + 1 \<le> k" "k < ?n" "?d k = 0" "load m1 ?b k = Some (Str a')"
            by blast
          then have "load m ?b k = Some (Str a')" using fr1[of ?b k] by simp
          with k show ?thesis by (intro exI[of _ k]) auto
        qed
      qed
      show "bufs m' a' =
              (if \<exists>k. i \<le> k \<and> k < ?n \<and> ?d k = 0 \<and> load m ?b k = Some (Str a')
               then None else bufs m a')"
        unfolding ex bf'[of a'] using b1 by auto
    qed
    from e bl' bl1 sa1 sa' c1 c2 c3 show ?thesis
      using same_alloc_trans by auto
  next
    case False
    note cd = compacting_D[OF cp Suc.prems(1) _ False]
    have dk: "1 \<le> ?d i" "?d i \<le> i + 1" using cd lt len by simp_all
    have "\<exists>m1. store m ?b (?d i - 1) (Str a) = Some m1"
      using store_Some[of m ?b L "?d i - 1" "Str a"] Suc.prems(2,3) dk lt by auto
    then obtain m1 where st: "store m ?b (?d i - 1) (Str a) = Some m1" by blast
    note sl = store_load[OF st] and sf = store_frame[OF st]
    have fr1: "load m1 b' j = load m b' j" if "b' \<noteq> ?b \<or> j \<noteq> ?d i - 1" for b' j
      using sl[of b' j] that by auto
    have at1: "load m1 ?b (?d i - 1) = Some (Str a)" using sl[of ?b "?d i - 1"] by simp
    have live1: "\<exists>a. load m1 ?b k = Some (Str a) \<and> bufs m1 a \<noteq> None" if k: "i + 1 \<le> k" "k < ?n" for k
    proof -
      have "k \<noteq> ?d i - 1" using dk k by linarith
      then show ?thesis using Suc.prems(4)[of k] k fr1[of ?b k] sf by auto
    qed
    have inj1: "k = k'" if "i + 1 \<le> k" "k < ?n" "i + 1 \<le> k'" "k' < ?n" "load m1 ?b k = load m1 ?b k'"
      for k k'
    proof -
      have "k \<noteq> ?d i - 1" "k' \<noteq> ?d i - 1" using dk that by linarith+
      then have "load m ?b k = load m ?b k'" using fr1[of ?b k] fr1[of ?b k'] that by simp
      with Suc.prems(5)[of k k'] that show ?thesis by simp
    qed
    have bl1b: "blen m1 ?b = Some L" using sf Suc.prems(2) by simp
    from Suc.hyps(1)[OF d' i1 bl1b Suc.prems(3) live1 inj1] obtain m' where
      r: "permdelete_loop v index (i + 1) m1 = Some m'" and bl': "blen m' = blen m1"
      and sa': "same_alloc m1 m'"
      and mv': "\<And>k. i + 1 \<le> k \<and> k < ?n \<and> ?d k \<noteq> 0 \<Longrightarrow> load m' ?b (?d k - 1) = load m1 ?b k"
      and fr': "\<And>b' j. \<not> (b' = ?b \<and> (\<exists>k. i + 1 \<le> k \<and> k < ?n \<and>
                            (if ?d k = 0 then j = k else j = ?d k - 1))) \<Longrightarrow>
                  load m' b' j = load m1 b' j"
      and bf': "\<And>a. bufs m' a =
              (if \<exists>k. i + 1 \<le> k \<and> k < ?n \<and> ?d k = 0 \<and> load m1 ?b k = Some (Str a)
               then None else bufs m1 a)"
      by blast
    have e: "permdelete_loop v index i m = Some m'"
      by (subst permdelete_loop.simps) (simp add: igraph_strvector_size_def nz lt vi False la st r)
    have untouched: "\<not> (\<exists>k. i + 1 \<le> k \<and> k < ?n \<and>
                            (if ?d k = 0 then ?d i - 1 = k else ?d i - 1 = ?d k - 1))"
    proof
      assume "\<exists>k. i + 1 \<le> k \<and> k < ?n \<and> (if ?d k = 0 then ?d i - 1 = k else ?d i - 1 = ?d k - 1)"
      then obtain k where k: "i + 1 \<le> k" "k < ?n"
        "if ?d k = 0 then ?d i - 1 = k else ?d i - 1 = ?d k - 1" by blast
      show False
      proof (cases "?d k = 0")
        case True
        with k dk show False by simp
      next
        case nz': False
        with k have "?d i = ?d k" by simp
        from compacting_inj[OF cp Suc.prems(1) _ _ _ this False] k lt len Suc.prems(1)
        have "i = k" by simp
        with k show False by simp
      qed
    qed
    have c1: "\<forall>k. i \<le> k \<and> k < ?n \<and> ?d k \<noteq> 0 \<longrightarrow> load m' ?b (?d k - 1) = load m ?b k"
    proof (intro allI impI)
      fix k assume k: "i \<le> k \<and> k < ?n \<and> ?d k \<noteq> 0"
      show "load m' ?b (?d k - 1) = load m ?b k"
      proof (cases "k = i")
        case True
        have "load m' ?b (?d i - 1) = load m1 ?b (?d i - 1)"
          by (rule fr') (use untouched in blast)
        with at1 la True show ?thesis by simp
      next
        case False
        with k have kk: "i + 1 \<le> k \<and> k < ?n \<and> ?d k \<noteq> 0" by simp
        have "k \<noteq> ?d i - 1" using dk kk by linarith
        with mv'[OF kk] fr1[of ?b k] show ?thesis by simp
      qed
    qed
    have c2: "\<forall>b' j. \<not> (b' = ?b \<and> (\<exists>k. i \<le> k \<and> k < ?n \<and>
                            (if ?d k = 0 then j = k else j = ?d k - 1))) \<longrightarrow>
                  load m' b' j = load m b' j"
    proof (intro allI impI)
      fix b' j assume n: "\<not> (b' = ?b \<and> (\<exists>k. i \<le> k \<and> k < ?n \<and>
                            (if ?d k = 0 then j = k else j = ?d k - 1)))"
      have "\<not> (b' = ?b \<and> (\<exists>k. i + 1 \<le> k \<and> k < ?n \<and> (if ?d k = 0 then j = k else j = ?d k - 1)))"
      proof
        assume "b' = ?b \<and> (\<exists>k. i + 1 \<le> k \<and> k < ?n \<and> (if ?d k = 0 then j = k else j = ?d k - 1))"
        then obtain k where "b' = ?b" "i + 1 \<le> k" "k < ?n" "if ?d k = 0 then j = k else j = ?d k - 1"
          by blast
        then have "b' = ?b \<and> (\<exists>k. i \<le> k \<and> k < ?n \<and> (if ?d k = 0 then j = k else j = ?d k - 1))"
          by (intro conjI exI[of _ k]) auto
        with n show False by blast
      qed
      then have "load m' b' j = load m1 b' j" by (rule fr')
      moreover have "b' \<noteq> ?b \<or> j \<noteq> ?d i - 1"
      proof (rule ccontr)
        assume "\<not> (b' \<noteq> ?b \<or> j \<noteq> ?d i - 1)"
        then have "b' = ?b \<and> (\<exists>k. i \<le> k \<and> k < ?n \<and> (if ?d k = 0 then j = k else j = ?d k - 1))"
          using False lt by (intro conjI exI[of _ i]) auto
        with n show False by blast
      qed
      then have "load m1 b' j = load m b' j" by (rule fr1)
      ultimately show "load m' b' j = load m b' j" by simp
    qed
    have c3: "\<forall>a'. bufs m' a' =
              (if \<exists>k. i \<le> k \<and> k < ?n \<and> ?d k = 0 \<and> load m ?b k = Some (Str a')
               then None else bufs m a')"
    proof
      fix a'
      have ex: "(\<exists>k. i \<le> k \<and> k < ?n \<and> ?d k = 0 \<and> load m ?b k = Some (Str a')) \<longleftrightarrow>
                (\<exists>k. i + 1 \<le> k \<and> k < ?n \<and> ?d k = 0 \<and> load m1 ?b k = Some (Str a'))"
      proof
        assume "\<exists>k. i \<le> k \<and> k < ?n \<and> ?d k = 0 \<and> load m ?b k = Some (Str a')"
        then obtain k where k: "i \<le> k" "k < ?n" "?d k = 0" "load m ?b k = Some (Str a')" by blast
        with False have "k \<noteq> i" by auto
        moreover from this k dk have "k \<noteq> ?d i - 1" by linarith
        ultimately have "i + 1 \<le> k \<and> k < ?n \<and> ?d k = 0 \<and> load m1 ?b k = Some (Str a')"
          using k fr1[of ?b k] by simp
        then show "\<exists>k. i + 1 \<le> k \<and> k < ?n \<and> ?d k = 0 \<and> load m1 ?b k = Some (Str a')" by blast
      next
        assume "\<exists>k. i + 1 \<le> k \<and> k < ?n \<and> ?d k = 0 \<and> load m1 ?b k = Some (Str a')"
        then obtain k where k: "i + 1 \<le> k" "k < ?n" "?d k = 0" "load m1 ?b k = Some (Str a')"
          by blast
        from k dk have "k \<noteq> ?d i - 1" by linarith
        then have "load m ?b k = Some (Str a')" using fr1[of ?b k] k by simp
        with k show "\<exists>k. i \<le> k \<and> k < ?n \<and> ?d k = 0 \<and> load m ?b k = Some (Str a')"
          by (intro exI[of _ k]) auto
      qed
      show "bufs m' a' =
              (if \<exists>k. i \<le> k \<and> k < ?n \<and> ?d k = 0 \<and> load m ?b k = Some (Str a')
               then None else bufs m a')"
        unfolding ex bf'[of a'] using sf by auto
    qed
    from e bl' sf sa' c1 c2 c3 show ?thesis
      using same_alloc_trans by auto
  qed
qed

lemma draw_Moved: "fst (draw m) = Moved \<longleftrightarrow> plan m \<noteq> [] \<and> hd (plan m) = Moved"
  by (auto simp: draw_def split: list.splits)

text \<open>
  \<^verbatim>\<open>igraph_strvector_permdelete\<close> on a valid vector, with a mapping that has one entry
  per element, sends no element above its own position or beyond the new size, and no
  two elements to one slot. Whatever the allocator answers, the call returns, a zero
  entry releases the buffer of its element, and a non-zero entry \<open>p\<close> leaves the
  element's own handle, with its bytes, in slot \<open>p - 1\<close> of the block \<^verbatim>\<open>stor_begin\<close>
  points to afterwards. \<^verbatim>\<open>stor_end\<close> and \<^verbatim>\<open>end\<close> are lowered by \<open>nremove\<close> from where
  they pointed.
\<close>

lemma permdelete_relocates:
  assumes v: "valid v m" and fr: "fresh m" and len: "int (length index) = endp v - stor_begin v"
    and cp: "compacting index (endp v - stor_begin v - nremove)"
  shows "\<exists>v' m'. igraph_strvector_permdelete v index nremove m = Some (v', m') \<and>
           stor_begin v' = (if fst (draw m) = Moved then top m else stor_begin v) \<and>
           stor_end v' = stor_end v - nremove \<and> endp v' = endp v - nremove \<and>
           (\<forall>k. 0 \<le> k \<and> k < endp v - stor_begin v \<and> index ! nat k = 0 \<longrightarrow>
                (\<exists>a. load m (stor_begin v) k = Some (Str a) \<and> bufs m' a = None)) \<and>
           (\<forall>k. 0 \<le> k \<and> k < endp v - stor_begin v \<and> index ! nat k \<noteq> 0 \<longrightarrow>
                load m' (stor_begin v') (index ! nat k - 1) = load m (stor_begin v) k \<and>
                get_bytes v' (index ! nat k - 1) m' = get_bytes v k m)"
proof -
  let ?b = "stor_begin v"
  let ?n = "endp v - ?b"
  let ?d = "\<lambda>k. index ! nat k"
  let ?N = "if ?n - nremove \<noteq> 0 then ?n - nremove else 1"
  note vb = valid_base[OF v]
  from fr have tp: "0 < top m" by (simp add: fresh_def)
  from valid_block[OF v] obtain L where L: "blen m ?b = Some L" "?n \<le> L" by blast
  have live: "\<exists>a. load m ?b k = Some (Str a) \<and> bufs m a \<noteq> None" if "0 \<le> k" "k < ?n" for k
    using valid_D[OF v that] by auto
  have inj: "k = k'" if "0 \<le> k" "k < ?n" "0 \<le> k'" "k' < ?n" "load m ?b k = load m ?b k'" for k k'
    using valid_inj[OF v that] .
  have nz: "stor_begin v \<noteq> 0" using vb by simp
  from permdelete_loop_spec[of v 0 m L index, OF nz order_refl L len cp live inj]
  obtain m1 where lp: "permdelete_loop v index 0 m = Some m1" and bl1: "blen m1 = blen m"
    and sa1: "same_alloc m m1"
    and mv1: "\<And>k. 0 \<le> k \<and> k < ?n \<and> ?d k \<noteq> 0 \<Longrightarrow> load m1 ?b (?d k - 1) = load m ?b k"
    and bf1: "\<And>a. bufs m1 a =
              (if \<exists>k. 0 \<le> k \<and> k < ?n \<and> ?d k = 0 \<and> load m ?b k = Some (Str a)
               then None else bufs m a)"
    by blast
  have pl1: "plan m1 = plan m" and tp1: "top m1 = top m" using sa1 by (simp_all add: same_alloc_def)
  have "arrs m1 ?b \<noteq> None" using bl1 L blen_None[of m1 ?b] by simp
  from realloc_charp_Some[OF this, of ?N] obtain tmp m2 where
    rc: "IGRAPH_REALLOC_charp ?b ?N m1 = Some (tmp, m2)" by blast
  from realloc_charp_D[OF rc] obtain xs where xs: "arrs m1 ?b = Some xs" and b2: "bufs m2 = bufs m1"
    and cases: "tmp = 0 \<and> arrs m2 = arrs m1 \<and> plan m1 \<noteq> [] \<and> hd (plan m1) = Fail \<or>
                tmp = ?b \<and> arrs m2 = (arrs m1)(?b \<mapsto> resized (slots_of ?N) Uninit xs) \<and>
                  (plan m1 = [] \<or> hd (plan m1) = Inplace) \<or>
                tmp = top m1 \<and>
                  arrs m2 = ((arrs m1)(?b := None))(top m1 \<mapsto> resized (slots_of ?N) Uninit xs) \<and>
                  plan m1 \<noteq> [] \<and> hd (plan m1) = Moved"
    by auto
  let ?b' = "if fst (draw m) = Moved then top m else ?b"
  let ?v' = "v\<lparr>stor_begin := ?b', stor_end := stor_end v - nremove, endp := endp v - nremove\<rparr>"
  have v1: "(if tmp \<noteq> 0 then v\<lparr>stor_begin := tmp\<rparr> else v) = v\<lparr>stor_begin := ?b'\<rparr>"
    using cases pl1 tp1 tp by (auto simp: draw_Moved)
  have res: "igraph_strvector_permdelete v index nremove m = Some (?v', m2)"
    using vb lp rc v1 by (simp add: igraph_strvector_permdelete_def igraph_strvector_size_def Let_def)
  have bz: "?b' \<noteq> 0" using nz tp by simp
  have ld2: "load m2 ?b' j = load m1 ?b j" if "0 \<le> j" "j < ?n - nremove" for j
  proof -
    have pos: "0 < ?n - nremove" using that by linarith
    then have sN: "int (slots_of ?N) = ?n - nremove" by (simp add: slots_of_def)
    from cases consider
        (fail) "arrs m2 = arrs m1" "plan m1 \<noteq> [] \<and> hd (plan m1) = Fail"
      | (inplace) "arrs m2 = (arrs m1)(?b \<mapsto> resized (slots_of ?N) Uninit xs)"
          "plan m1 = [] \<or> hd (plan m1) = Inplace"
      | (moved) "arrs m2 = ((arrs m1)(?b := None))(top m1 \<mapsto> resized (slots_of ?N) Uninit xs)"
          "plan m1 \<noteq> [] \<and> hd (plan m1) = Moved"
      by blast
    then show ?thesis
    proof cases
      case fail
      then have e: "?b' = ?b" using pl1 by (auto simp: draw_Moved)
      have "load m2 ?b j = load m1 ?b j" by (intro load_other) (simp add: fail(1))
      then show ?thesis by (simp only: e)
    next
      case inplace
      then have e: "?b' = ?b" using pl1 by (auto simp: draw_Moved)
      from inplace have a2: "arrs m2 ?b = Some (resized (slots_of ?N) Uninit xs)" by simp
      have "load m2 ?b j = (if j < int (slots_of ?N) then load m1 ?b j else None)"
        by (rule load_resized[OF xs a2])
      then have "load m2 ?b j = load m1 ?b j" unfolding sN using that(2) by (simp only: if_True)
      then show ?thesis by (simp only: e)
    next
      case moved
      then have e: "?b' = top m1" using pl1 tp1 by (auto simp: draw_Moved)
      from moved have a2: "arrs m2 (top m1) = Some (resized (slots_of ?N) Uninit xs)" by simp
      have "load m2 (top m1) j = (if j < int (slots_of ?N) then load m1 ?b j else None)"
        by (rule load_resized[OF xs a2])
      then have "load m2 (top m1) j = load m1 ?b j" unfolding sN using that(2) by (simp only: if_True)
      then show ?thesis by (simp only: e)
    qed
  qed
  have keep: "bufs m2 a = bufs m a" if "load m ?b k = Some (Str a)" "0 \<le> k" "k < ?n" "?d k \<noteq> 0" for a k
  proof -
    have "\<not> (\<exists>k'. 0 \<le> k' \<and> k' < ?n \<and> ?d k' = 0 \<and> load m ?b k' = Some (Str a))"
    proof
      assume "\<exists>k'. 0 \<le> k' \<and> k' < ?n \<and> ?d k' = 0 \<and> load m ?b k' = Some (Str a)"
      then obtain k' where k': "0 \<le> k'" "k' < ?n" "?d k' = 0" "load m ?b k' = Some (Str a)" by blast
      then have "k = k'" using inj[of k k'] that by simp
      with k' that show False by simp
    qed
    then show ?thesis using bf1[of a] b2 by auto
  qed
  have c3: "\<forall>k. 0 \<le> k \<and> k < ?n \<and> ?d k = 0 \<longrightarrow> (\<exists>a. load m ?b k = Some (Str a) \<and> bufs m2 a = None)"
  proof (intro allI impI)
    fix k assume k: "0 \<le> k \<and> k < ?n \<and> ?d k = 0"
    from live[of k] k obtain a where a: "load m ?b k = Some (Str a)" by auto
    with k have "\<exists>k'. 0 \<le> k' \<and> k' < ?n \<and> ?d k' = 0 \<and> load m ?b k' = Some (Str a)" by blast
    then have "bufs m2 a = None" using bf1[of a] b2 by simp
    with a show "\<exists>a. load m ?b k = Some (Str a) \<and> bufs m2 a = None" by blast
  qed
  have sb: "stor_begin ?v' = ?b'" by simp
  have c4: "\<forall>k. 0 \<le> k \<and> k < ?n \<and> ?d k \<noteq> 0 \<longrightarrow>
                load m2 (stor_begin ?v') (?d k - 1) = load m ?b k \<and>
                get_bytes ?v' (?d k - 1) m2 = get_bytes v k m"
  proof (intro allI impI)
    fix k assume k: "0 \<le> k \<and> k < ?n \<and> ?d k \<noteq> 0"
    from compacting_D[OF cp, of k] k len have dk: "1 \<le> ?d k" "?d k \<le> ?n - nremove" by simp_all
    have "load m2 ?b' (?d k - 1) = load m1 ?b (?d k - 1)"
      by (rule ld2) (use dk in simp_all)
    with mv1[OF k] have l: "load m2 (stor_begin ?v') (?d k - 1) = load m ?b k"
      by (simp only: sb)
    have z: "stor_begin ?v' \<noteq> 0 \<longleftrightarrow> stor_begin v \<noteq> 0" using bz nz by (simp only: sb)
    have "get_bytes ?v' (?d k - 1) m2 = get_bytes v k m"
    proof (rule get_bytes_eq[OF z l])
      fix a assume "load m ?b k = Some (Str a)"
      then show "bufs m2 a = bufs m a" using keep[of k a] k by simp
    qed
    with l show "load m2 (stor_begin ?v') (?d k - 1) = load m ?b k \<and>
                get_bytes ?v' (?d k - 1) m2 = get_bytes v k m" by simp
  qed
  have p: "stor_begin ?v' = ?b' \<and> stor_end ?v' = stor_end v - nremove \<and> endp ?v' = endp v - nremove"
    by simp
  show ?thesis
    apply (intro exI[of _ ?v'] exI[of _ m2] conjI)
         apply (rule res)
        apply (rule p[THEN conjunct1])
       apply (rule p[THEN conjunct2, THEN conjunct1])
      apply (rule p[THEN conjunct2, THEN conjunct2])
     apply (rule c3)
    apply (rule c4)
    done
qed


text \<open>
  So the size comes out reduced by \<open>nremove\<close> when the reallocation fails or keeps the
  address. When it returns a new block, which lies above the old one, the size is
  short by the distance between the two.
\<close>

lemma permdelete_size:
  assumes v: "valid v m" and fr: "fresh m" and len: "int (length index) = endp v - stor_begin v"
    and cp: "compacting index (endp v - stor_begin v - nremove)"
  shows "\<exists>v' m'. igraph_strvector_permdelete v index nremove m = Some (v', m') \<and>
           igraph_strvector_size v' =
             Some (endp v - stor_begin v - nremove -
                   (if fst (draw m) = Moved then top m - stor_begin v else 0)) \<and>
           stor_begin v < top m"
proof -
  from permdelete_relocates[OF v fr len cp] obtain v' m' where
    r: "igraph_strvector_permdelete v index nremove m = Some (v', m')"
    and b: "stor_begin v' = (if fst (draw m) = Moved then top m else stor_begin v)"
    and e: "endp v' = endp v - nremove" by blast
  from v have "arrs m (stor_begin v) \<noteq> None" by (simp add: valid_def)
  then have lt: "stor_begin v < top m" using fr by (auto simp: fresh_def not_le[symmetric])
  have "stor_begin v' \<noteq> 0" using b valid_base[OF v] fr by (auto simp: fresh_def)
  then have "igraph_strvector_size v' = Some (endp v' - stor_begin v')"
    by (simp add: igraph_strvector_size_def)
  with r b e lt show ?thesis by auto
qed

text \<open>
  The example of the specification: \<open>["a","b","c","d"]\<close> with the mapping \<open>[1,0,2,0]\<close>
  becomes \<open>["a","c"]\<close> when the reallocation keeps the address, and when it fails.
\<close>

lemma permdelete_example:
  "(case igraph_strvector_permdelete (vec 4) [1, 0, 2, 0] 2
           (vec_mem [''a'', ''b'', ''c'', ''d''] [] fc) of
      None \<Rightarrow> False
    | Some (v', m') \<Rightarrow>
        igraph_strvector_size v' = Some 2 \<and> strings v' m' = [Some ''a'', Some ''c''] \<and>
        handles v' m' = [Some (Str 100), Some (Str 102)] \<and>
        bufs m' 101 = None \<and> bufs m' 103 = None) \<and>
   (case igraph_strvector_permdelete (vec 4) [1, 0, 2, 0] 2
           (vec_mem [''a'', ''b'', ''c'', ''d''] [Fail] fc) of
      None \<Rightarrow> False
    | Some (v', m') \<Rightarrow>
        igraph_strvector_size v' = Some 2 \<and> strings v' m' = [Some ''a'', Some ''c''])"
  by (simp add: vec_ops loops mem_ops observers fixture eval_nat_numeral)

text \<open>
  The loop writes each handle to its new slot at once, in ascending order: with the
  mapping \<open>[2, 1]\<close> on \<open>["a","b"]\<close> element 0 is written over element 1 before that is
  read, and both slots end up with the handle of \<open>"a"\<close>.
\<close>

lemma permdelete_ascending:
  "(case igraph_strvector_permdelete (vec 2) [2, 1] 0 (vec_mem [''a'', ''b''] [] fc) of
      None \<Rightarrow> False
    | Some (v', m') \<Rightarrow>
        handles (vec 2) (vec_mem [''a'', ''b''] [] fc) = [Some (Str 100), Some (Str 101)] \<and>
        handles v' m' = [Some (Str 100), Some (Str 100)] \<and>
        strings v' m' = [Some ''a'', Some ''a''])"
  by (simp add: vec_ops loops mem_ops observers fixture eval_nat_numeral)

text \<open>
  C2. The example of the specification, \<open>["a","b","c","d"]\<close> with the mapping
  \<open>[1,0,2,0]\<close> and \<open>nremove = 2\<close>, when the reallocation at the end of
  \<^verbatim>\<open>igraph_strvector_permdelete\<close> returns a new block (here at address 200, the old
  one at 1). The handles of \<open>"a"\<close> and \<open>"c"\<close> are in slots 0 and 1 of the new block
  and the buffers of \<open>"b"\<close> and \<open>"d"\<close> are released, but the result is not the
  2-element vector \<open>["a","c"]\<close>: \<^verbatim>\<open>stor_begin\<close> is set to the new block, while
  \<^verbatim>\<open>stor_end\<close> and \<^verbatim>\<open>end\<close> are lowered from their old values, which point into the
  old block, now released. The size, \<^verbatim>\<open>end - stor_begin\<close>, is \<open>- 197\<close> and the vector
  reads as empty.
\<close>

theorem permdelete_moved_block:
  "(case igraph_strvector_permdelete (vec 4) [1, 0, 2, 0] 2
           (vec_mem [''a'', ''b'', ''c'', ''d''] [Moved] fc) of
      None \<Rightarrow> False
    | Some (v', m') \<Rightarrow>
        load m' 200 0 = Some (Str 100) \<and> load m' 200 1 = Some (Str 102) \<and>
        bufs m' 100 = Some (''a'' @ [NUL]) \<and> bufs m' 102 = Some (''c'' @ [NUL]) \<and>
        bufs m' 101 = None \<and> bufs m' 103 = None \<and> arrs m' 1 = None \<and>
        v' = \<lparr>stor_begin = 200, stor_end = 3, endp = 3\<rparr> \<and>
        igraph_strvector_size v' = Some (- 197) \<and> strings v' m' = [] \<and> \<not> extents_ok v')"
  by (simp add: vec_ops loops mem_ops observers fixture eval_nat_numeral)

section \<open>Append\<close>

subsection \<open>Growing\<close>

lemma resize_cleanup_loop_null:
  "load m b (oldsize + i) = Some Null \<Longrightarrow> resize_cleanup_loop b oldsize i j m = Some m"
proof (induction "nat (i - j)" arbitrary: j)
  case 0
  then show ?case by (subst resize_cleanup_loop.simps) simp
next
  case (Suc d)
  then have "d = nat (i - (j + 1))" by linarith
  from Suc.hyps(1)[OF this Suc.prems] Suc.prems show ?case
    by (subst resize_cleanup_loop.simps) simp
qed

lemma store_byte_calloc:
  assumes "bufs m a = Some (replicate (Suc k) NUL)"
  shows "store_byte (Str a) 0 NUL m = Some m"
proof -
  have "(replicate (Suc k) NUL)[0 := NUL] = replicate (Suc k) NUL" by simp
  moreover have "(bufs m)(a \<mapsto> replicate (Suc k) NUL) = bufs m" using assms by (simp add: fun_upd_idem)
  ultimately show ?thesis using assms by (simp add: store_byte_def)
qed

lemma resize_grow_loop_spec:
  assumes "fresh m" "blen m b = Some L" "0 \<le> oldsize" "0 \<le> i" "oldsize + toadd \<le> L"
  shows "\<exists>e m'. resize_grow_loop b oldsize toadd i m = Some (e, m') \<and> fresh m' \<and>
           top m \<le> top m' \<and> blen m' = blen m \<and>
           (\<forall>a. a < top m \<longrightarrow> bufs m' a = bufs m a) \<and>
           (\<forall>b' j. \<not> (b' = b \<and> oldsize + i \<le> j \<and> j < oldsize + toadd) \<longrightarrow>
                load m' b' j = load m b' j) \<and>
           (e = IGRAPH_SUCCESS \<or> e = IGRAPH_ENOMEM) \<and>
           (e = IGRAPH_SUCCESS \<longrightarrow>
              (\<forall>j. oldsize + i \<le> j \<and> j < oldsize + toadd \<longrightarrow>
                   load m' b j = Some (Str (top m + (j - (oldsize + i)))) \<and>
                   bufs m' (top m + (j - (oldsize + i))) = Some [NUL]))"
  using assms
proof (induction "nat (toadd - i)" arbitrary: i m)
  case 0
  then have "\<not> i < toadd" by simp
  then show ?case using "0.prems"(1) by (subst resize_grow_loop.simps) auto
next
  case (Suc d)
  from Suc.hyps(2) have lt: "i < toadd" by linarith
  obtain p m1 where c: "IGRAPH_CALLOC_char 1 m = (p, m1)" by (cases "IGRAPH_CALLOC_char 1 m")
  note cd = calloc_char_D[OF c]
  from cd have ae: "load m1 = load m" "blen m1 = blen m" using arrs_eq_load by blast+
  have "\<exists>m2. store m1 b (oldsize + i) p = Some m2"
    using store_Some[of m1 b L "oldsize + i" p] ae Suc.prems lt by auto
  then obtain m2 where st: "store m1 b (oldsize + i) p = Some m2" by blast
  note sl2 = store_load[OF st] and sf2 = store_frame[OF st]
  have fr2: "load m2 b' j = load m b' j" if "\<not> (b' = b \<and> j = oldsize + i)" for b' j
    using sl2[of b' j] ae that by auto
  have bl2: "blen m2 = blen m" using sf2 ae by simp
  have t2: "top m2 = top m1" using sf2 by (simp add: same_alloc_def)
  show ?case
  proof (cases "p = Null")
    case True
    with cd have b1: "bufs m1 = bufs m" and t1: "top m1 = top m" by auto
    have "load m2 b (oldsize + i) = Some Null" using sl2[of b "oldsize + i"] True by simp
    then have cl: "resize_cleanup_loop b oldsize i 0 m2 = Some m2"
      by (rule resize_cleanup_loop_null)
    have st0: "store m1 b (oldsize + i) Null = Some m2" using st True by simp
    have c0: "IGRAPH_CALLOC_char 1 m = (Null, m1)" using c True by simp
    have e: "resize_grow_loop b oldsize toadd i m = Some (IGRAPH_ENOMEM, m2)"
      by (subst resize_grow_loop.simps) (simp add: lt c0 st0 cl)
    have f2: "fresh m2"
    proof (rule fresh_frame[OF Suc.prems(1) bl2])
      show "top m \<le> top m2" using t1 t2 by simp
      fix a assume "top m2 \<le> a"
      then show "bufs m2 a = None" using Suc.prems(1) sf2 b1 t1 t2 by (auto simp: fresh_def)
    qed
    have c5: "\<forall>b' j. \<not> (b' = b \<and> oldsize + i \<le> j \<and> j < oldsize + toadd) \<longrightarrow>
                load m2 b' j = load m b' j"
      using fr2 lt by auto
    have c4: "\<forall>a. a < top m \<longrightarrow> bufs m2 a = bufs m a" using sf2 b1 by simp
    have tt: "top m \<le> top m2" using t1 t2 by simp
    show ?thesis
      by (intro exI[of _ IGRAPH_ENOMEM] exI[of _ m2] conjI) (use e f2 tt bl2 c4 c5 in simp_all)
  next
    case False
    with cd have p: "p = Str (top m)"
      and b1: "bufs m1 = (bufs m)(top m \<mapsto> replicate (slots_of 1) NUL)"
      and t1: "top m1 = top m + 1" by auto
    have so: "slots_of 1 = Suc 0" by (simp add: slots_of_def)
    have b2: "bufs m2 = (bufs m)(top m \<mapsto> [NUL])" using sf2 b1 so by simp
    then have "bufs m2 (top m) = Some (replicate (Suc 0) NUL)" by simp
    then have sb: "store_byte p 0 NUL m2 = Some m2" unfolding p by (rule store_byte_calloc)
    have f2: "fresh m2"
    proof (rule fresh_frame[OF Suc.prems(1) bl2])
      show "top m \<le> top m2" using t1 t2 by simp
      fix a assume "top m2 \<le> a"
      then show "bufs m2 a = None" using Suc.prems(1) b2 t1 t2 by (auto simp: fresh_def)
    qed
    have d': "d = nat (toadd - (i + 1))" using Suc.hyps(2) by linarith
    have bl2b: "blen m2 b = Some L" using bl2 Suc.prems(2) by simp
    have i1: "0 \<le> i + 1" using Suc.prems(4) by simp
    from Suc.hyps(1)[OF d' f2 bl2b Suc.prems(3) i1 Suc.prems(5)] obtain e m' where
      r: "resize_grow_loop b oldsize toadd (i + 1) m2 = Some (e, m')" and f': "fresh m'"
      and t': "top m2 \<le> top m'" and bl': "blen m' = blen m2"
      and bf': "\<And>a. a < top m2 \<Longrightarrow> bufs m' a = bufs m2 a"
      and fr': "\<And>b' j. \<not> (b' = b \<and> oldsize + (i + 1) \<le> j \<and> j < oldsize + toadd) \<Longrightarrow>
                load m' b' j = load m2 b' j"
      and ee: "e = IGRAPH_SUCCESS \<or> e = IGRAPH_ENOMEM"
      and ok': "e = IGRAPH_SUCCESS \<Longrightarrow> (\<forall>j. oldsize + (i + 1) \<le> j \<and> j < oldsize + toadd \<longrightarrow>
                   load m' b j = Some (Str (top m2 + (j - (oldsize + (i + 1))))) \<and>
                   bufs m' (top m2 + (j - (oldsize + (i + 1)))) = Some [NUL])"
      by blast
    have e: "resize_grow_loop b oldsize toadd i m = Some (e, m')"
      by (subst resize_grow_loop.simps) (simp add: lt c st False sb r)
    have c4: "\<forall>a. a < top m \<longrightarrow> bufs m' a = bufs m a"
    proof (intro allI impI)
      fix a assume "a < top m"
      then have "a < top m2" "a \<noteq> top m" using t1 t2 by simp_all
      then show "bufs m' a = bufs m a" using bf'[of a] b2 by simp
    qed
    have c5: "\<forall>b' j. \<not> (b' = b \<and> oldsize + i \<le> j \<and> j < oldsize + toadd) \<longrightarrow>
                load m' b' j = load m b' j"
    proof (intro allI impI)
      fix b' j assume n: "\<not> (b' = b \<and> oldsize + i \<le> j \<and> j < oldsize + toadd)"
      then have "load m' b' j = load m2 b' j" using fr'[of b' j] by auto
      moreover have "load m2 b' j = load m b' j" using fr2[of b' j] n lt by auto
      ultimately show "load m' b' j = load m b' j" by simp
    qed
    have c6: "\<forall>j. oldsize + i \<le> j \<and> j < oldsize + toadd \<longrightarrow>
                   load m' b j = Some (Str (top m + (j - (oldsize + i)))) \<and>
                   bufs m' (top m + (j - (oldsize + i))) = Some [NUL]" if s: "e = IGRAPH_SUCCESS"
    proof (intro allI impI)
      fix j assume j: "oldsize + i \<le> j \<and> j < oldsize + toadd"
      show "load m' b j = Some (Str (top m + (j - (oldsize + i)))) \<and>
                   bufs m' (top m + (j - (oldsize + i))) = Some [NUL]"
      proof (cases "j = oldsize + i")
        case True
        have "load m' b j = load m2 b j" using fr'[of b j] True by simp
        also have "\<dots> = Some (Str (top m))" using sl2[of b j] True p by simp
        finally have 1: "load m' b j = Some (Str (top m + (j - (oldsize + i))))" using True by simp
        have "bufs m' (top m) = bufs m2 (top m)" using bf'[of "top m"] t1 t2 by simp
        then have "bufs m' (top m + (j - (oldsize + i))) = Some [NUL]" using b2 True by simp
        with 1 show ?thesis by simp
      next
        case False
        with j have jj: "oldsize + (i + 1) \<le> j \<and> j < oldsize + toadd" by simp
        have eq: "top m2 + (j - (oldsize + (i + 1))) = top m + (j - (oldsize + i))"
          using t1 t2 by simp
        from ok'[OF s] jj have "load m' b j = Some (Str (top m2 + (j - (oldsize + (i + 1))))) \<and>
                   bufs m' (top m2 + (j - (oldsize + (i + 1)))) = Some [NUL]" by blast
        then show ?thesis by (simp only: eq)
      qed
    qed
    have tt: "top m \<le> top m'" using t' t1 t2 by simp
    have bb: "blen m' = blen m" using bl' bl2 by simp
    have c6': "e = IGRAPH_SUCCESS \<longrightarrow> (\<forall>j. oldsize + i \<le> j \<and> j < oldsize + toadd \<longrightarrow>
                   load m' b j = Some (Str (top m + (j - (oldsize + i)))) \<and>
                   bufs m' (top m + (j - (oldsize + i))) = Some [NUL])" using c6 by blast
    show ?thesis
      by (intro exI[of _ e] exI[of _ m'] conjI) (use e f' tt bb c4 c5 ee c6' in simp_all)
  qed
qed

lemma fresh_block: "fresh m \<Longrightarrow> arrs m b \<noteq> None \<Longrightarrow> b < top m"
  unfolding fresh_def by (meson not_le_imp_less)

lemma blen_resized:
  "arrs m1 b = Some (resized k x xs) \<Longrightarrow> blen m1 b = Some (int k)"
  by (simp add: blen_def)

lemma resize_grows:
  assumes v: "valid v m" and fr: "fresh m" and gt: "endp v - stor_begin v < newsize"
  shows "\<exists>e v1 m1. igraph_strvector_resize v newsize m = Some (e, v1, m1) \<and> fresh m1 \<and>
           top m \<le> top m1 \<and>
           (\<forall>a. a < top m \<longrightarrow> bufs m1 a = bufs m a) \<and>
           (\<forall>b' j. b' \<noteq> stor_begin v \<and> arrs m b' \<noteq> None \<longrightarrow> load m1 b' j = load m b' j) \<and>
           (e = IGRAPH_SUCCESS \<or> e = IGRAPH_ENOMEM) \<and>
           (e = IGRAPH_SUCCESS \<longrightarrow>
              stor_begin v1 \<noteq> 0 \<and> endp v1 = stor_begin v1 + newsize \<and>
              blen m1 (stor_begin v1) = Some newsize \<and>
              (stor_begin v1 = stor_begin v \<or> arrs m (stor_begin v1) = None) \<and>
              (\<forall>j. 0 \<le> j \<and> j < endp v - stor_begin v \<longrightarrow>
                   load m1 (stor_begin v1) j = load m (stor_begin v) j) \<and>
              (\<exists>t0. top m \<le> t0 \<and>
                 (\<forall>j. endp v - stor_begin v \<le> j \<and> j < newsize \<longrightarrow>
                      load m1 (stor_begin v1) j = Some (Str (t0 + (j - (endp v - stor_begin v)))) \<and>
                      bufs m1 (t0 + (j - (endp v - stor_begin v))) = Some [NUL])))"
proof -
  let ?b = "stor_begin v"
  let ?n = "endp v - ?b"
  note vb = valid_base[OF v]
  have n0: "0 \<le> ?n" using vb by simp
  have sz: "igraph_strvector_size v = Some ?n" using vb by (simp add: igraph_strvector_size_def)
  from v have al: "arrs m ?b \<noteq> None" by (simp add: valid_def)
  from realloc_charp_Some[OF al, of newsize] obtain tmp m0 where
    rc: "IGRAPH_REALLOC_charp ?b newsize m = Some (tmp, m0)" by blast
  from realloc_charp_D[OF rc] obtain xs where xs: "arrs m ?b = Some xs" and b0: "bufs m0 = bufs m"
    and cases: "tmp = 0 \<and> arrs m0 = arrs m \<and> top m0 = top m \<or>
                tmp = ?b \<and> arrs m0 = (arrs m)(?b \<mapsto> resized (slots_of newsize) Uninit xs) \<and>
                  top m0 = top m \<or>
                tmp = top m \<and>
                  arrs m0 = ((arrs m)(?b := None))(top m \<mapsto> resized (slots_of newsize) Uninit xs) \<and>
                  top m0 = top m + int (slots_of newsize) + 1"
    by auto
  have so: "int (slots_of newsize) = newsize" using gt n0 by (simp add: slots_of_def)
  have bt: "?b < top m" using fresh_block[OF fr al] .
  have tp: "0 < top m" using fr by (simp add: fresh_def)
  have t0: "top m \<le> top m0" using cases by auto
  have f0: "fresh m0"
    unfolding fresh_def
  proof (intro conjI allI impI)
    show "0 < top m0" using tp t0 by simp
    fix a assume a: "top m0 \<le> a"
    then have "bufs m a = None" "arrs m a = None" "a \<noteq> ?b" "a \<noteq> top m \<or> top m0 = top m"
      using fr t0 bt cases by (auto simp: fresh_def)
    then show "bufs m0 a = None" "arrs m0 a = None" using b0 cases a by auto
  qed
  have oth0: "arrs m0 b' = arrs m b'" if "b' \<noteq> ?b" "arrs m b' \<noteq> None" for b'
  proof -
    have "b' \<noteq> top m" using fresh_block[OF fr that(2)] by simp
    then show ?thesis using cases that by auto
  qed
  show ?thesis
  proof (cases "tmp = 0")
    case True
    then have res: "igraph_strvector_resize v newsize m = Some (IGRAPH_ENOMEM, v, m0)"
      using sz gt rc by (simp add: igraph_strvector_resize_def)
    have "\<forall>b' j. b' \<noteq> ?b \<and> arrs m b' \<noteq> None \<longrightarrow> load m0 b' j = load m b' j"
      using oth0 by (auto intro: load_other)
    then show ?thesis
      by (intro exI[of _ IGRAPH_ENOMEM] exI[of _ v] exI[of _ m0] conjI) (use res f0 t0 b0 in simp_all)
  next
    case False
    with cases tp have a0: "arrs m0 tmp = Some (resized (slots_of newsize) Uninit xs)"
      and tb: "tmp = ?b \<or> tmp = top m" by auto
    let ?v1 = "v\<lparr>stor_begin := tmp, stor_end := tmp + newsize, endp := tmp + newsize\<rparr>"
    have bl0: "blen m0 tmp = Some newsize" using blen_resized[OF a0] so by simp
    have le: "?n + (newsize - ?n) \<le> newsize" by simp
    from resize_grow_loop_spec[OF f0 bl0 n0 order_refl le] obtain e m1 where
      r: "resize_grow_loop tmp ?n (newsize - ?n) 0 m0 = Some (e, m1)" and f1: "fresh m1"
      and t1: "top m0 \<le> top m1" and bl1: "blen m1 = blen m0"
      and bf1: "\<And>a. a < top m0 \<Longrightarrow> bufs m1 a = bufs m0 a"
      and fr1: "\<And>b' j. \<not> (b' = tmp \<and> ?n + 0 \<le> j \<and> j < ?n + (newsize - ?n)) \<Longrightarrow>
                load m1 b' j = load m0 b' j"
      and ee: "e = IGRAPH_SUCCESS \<or> e = IGRAPH_ENOMEM"
      and ok1: "e = IGRAPH_SUCCESS \<Longrightarrow> (\<forall>j. ?n + 0 \<le> j \<and> j < ?n + (newsize - ?n) \<longrightarrow>
                   load m1 tmp j = Some (Str (top m0 + (j - (?n + 0)))) \<and>
                   bufs m1 (top m0 + (j - (?n + 0))) = Some [NUL])"
      by blast
    have res: "igraph_strvector_resize v newsize m = Some (e, ?v1, m1)"
      using sz gt rc False r by (simp add: igraph_strvector_resize_def Let_def)
    have c3: "\<forall>a. a < top m \<longrightarrow> bufs m1 a = bufs m a" using bf1 t0 b0 by simp
    have c4: "\<forall>b' j. b' \<noteq> ?b \<and> arrs m b' \<noteq> None \<longrightarrow> load m1 b' j = load m b' j"
    proof (intro allI impI)
      fix b' j assume h: "b' \<noteq> ?b \<and> arrs m b' \<noteq> None"
      then have "b' \<noteq> tmp" using tb fresh_block[OF fr, of b'] by auto
      then have "load m1 b' j = load m0 b' j" using fr1[of b' j] by simp
      also have "\<dots> = load m b' j" using oth0[of b'] h by (intro load_other) simp
      finally show "load m1 b' j = load m b' j" .
    qed
    have c6: "stor_begin ?v1 \<noteq> 0 \<and> endp ?v1 = stor_begin ?v1 + newsize \<and>
              blen m1 (stor_begin ?v1) = Some newsize \<and>
              (stor_begin ?v1 = stor_begin v \<or> arrs m (stor_begin ?v1) = None) \<and>
              (\<forall>j. 0 \<le> j \<and> j < ?n \<longrightarrow> load m1 (stor_begin ?v1) j = load m ?b j) \<and>
              (\<exists>t0. top m \<le> t0 \<and>
                 (\<forall>j. ?n \<le> j \<and> j < newsize \<longrightarrow>
                      load m1 (stor_begin ?v1) j = Some (Str (t0 + (j - ?n))) \<and>
                      bufs m1 (t0 + (j - ?n)) = Some [NUL]))" if s: "e = IGRAPH_SUCCESS"
    proof (intro conjI)
      show "stor_begin ?v1 \<noteq> 0" using False by simp
      show "endp ?v1 = stor_begin ?v1 + newsize" by simp
      show "blen m1 (stor_begin ?v1) = Some newsize" using bl1 bl0 by simp
      show "stor_begin ?v1 = stor_begin v \<or> arrs m (stor_begin ?v1) = None"
        using tb fr by (auto simp: fresh_def)
      show "\<forall>j. 0 \<le> j \<and> j < ?n \<longrightarrow> load m1 (stor_begin ?v1) j = load m ?b j"
      proof (intro allI impI)
        fix j assume j: "0 \<le> j \<and> j < ?n"
        have "load m1 tmp j = load m0 tmp j" using fr1[of tmp j] j by simp
        also have "\<dots> = (if j < int (slots_of newsize) then load m ?b j else None)"
          by (rule load_resized[OF xs a0])
        also have "\<dots> = load m ?b j" using j gt so by simp
        finally show "load m1 (stor_begin ?v1) j = load m ?b j" by simp
      qed
      show "\<exists>t0. top m \<le> t0 \<and>
                 (\<forall>j. ?n \<le> j \<and> j < newsize \<longrightarrow>
                      load m1 (stor_begin ?v1) j = Some (Str (t0 + (j - ?n))) \<and>
                      bufs m1 (t0 + (j - ?n)) = Some [NUL])"
        using ok1[OF s] t0 by (intro exI[of _ "top m0"]) simp
    qed
    have tt: "top m \<le> top m1" using t0 t1 by simp
    have c6': "e = IGRAPH_SUCCESS \<longrightarrow>
              stor_begin ?v1 \<noteq> 0 \<and> endp ?v1 = stor_begin ?v1 + newsize \<and>
              blen m1 (stor_begin ?v1) = Some newsize \<and>
              (stor_begin ?v1 = stor_begin v \<or> arrs m (stor_begin ?v1) = None) \<and>
              (\<forall>j. 0 \<le> j \<and> j < ?n \<longrightarrow> load m1 (stor_begin ?v1) j = load m ?b j) \<and>
              (\<exists>t0. top m \<le> t0 \<and>
                 (\<forall>j. ?n \<le> j \<and> j < newsize \<longrightarrow>
                      load m1 (stor_begin ?v1) j = Some (Str (t0 + (j - ?n))) \<and>
                      bufs m1 (t0 + (j - ?n)) = Some [NUL]))" using c6 by blast
    show ?thesis
      apply (intro exI[of _ e] exI[of _ ?v1] exI[of _ m1] conjI)
             apply (rule res)
            apply (rule f1)
           apply (rule tt)
          apply (rule c3)
         apply (rule c4)
        apply (rule ee)
      apply (rule c6')
      done
  qed
qed

subsection \<open>Copying the elements\<close>

lemma strdup_D:
  assumes "strdup src m = Some (p, m1)"
  shows "arrs m1 = arrs m \<and>
         (p = Null \<and> bufs m1 = bufs m \<and> top m1 = top m \<or>
          p = Str (top m) \<and> bufs m1 = (bufs m)(top m \<mapsto> cstr src @ [NUL]) \<and>
          top m1 = top m + 1)"
proof -
  from assms have n: "NUL \<in> set src" by (auto simp: strdup_def split: if_splits)
  obtain r m0 where d: "draw m = (r, m0)" by (cases "draw m")
  have dd: "bufs m0 = bufs m \<and> arrs m0 = arrs m \<and> top m0 = top m" using draw_D[OF d] by simp
  show ?thesis
  proof (cases "r = Fail")
    case True
    with assms d n have "p = Null" "m1 = m0" by (auto simp: strdup_def)
    with dd show ?thesis by simp
  next
    case False
    with assms d n have "p = Str (top m0)"
      "m1 = m0\<lparr>bufs := (bufs m0)(top m0 \<mapsto> cstr src @ [NUL]), top := top m0 + 1\<rparr>"
      by (auto simp: strdup_def)
    with dd show ?thesis by simp
  qed
qed

lemma strdup_Some: "NUL \<in> set src \<Longrightarrow> \<exists>p m1. strdup src m = Some (p, m1)"
  by (auto simp: strdup_def Let_def split: prod.splits)

lemma cstr_empty: "cstr (NUL # cs) = []"
  by (simp add: cstr_def)


lemma append_loop_spec:
  assumes fr: "fresh m" and ne: "tb \<noteq> fb \<or> len2 \<le> len1" and i0: "0 \<le> i" and l1: "0 \<le> len1"
    and bl: "blen m tb = Some L" "len1 + len2 \<le> L"
    and src: "\<And>k. i \<le> k \<Longrightarrow> k < len2 \<Longrightarrow>
               \<exists>a bs. load m fb k = Some (Str a) \<and> bufs m a = Some bs \<and> NUL \<in> set bs"
    and tail: "\<And>k. i \<le> k \<Longrightarrow> k < len2 \<Longrightarrow>
               \<exists>a. load m tb (len1 + k) = Some (Str a) \<and> bufs m a = Some [NUL]"
    and tinj: "\<And>k k'. i \<le> k \<Longrightarrow> k < len2 \<Longrightarrow> i \<le> k' \<Longrightarrow> k' < len2 \<Longrightarrow>
               load m tb (len1 + k) = load m tb (len1 + k') \<Longrightarrow> k = k'"
    and sep: "\<And>k k'. i \<le> k \<Longrightarrow> k < len2 \<Longrightarrow> i \<le> k' \<Longrightarrow> k' < len2 \<Longrightarrow>
               load m fb k \<noteq> load m tb (len1 + k')"
  shows "\<exists>err m'. append_loop tb fb len1 len2 i m = Some (err, m') \<and> fresh m' \<and>
           top m \<le> top m' \<and> blen m' = blen m \<and>
           (\<forall>a. a < top m \<and> (\<forall>k. i \<le> k \<and> k < len2 \<longrightarrow> load m tb (len1 + k) \<noteq> Some (Str a)) \<longrightarrow>
                bufs m' a = bufs m a) \<and>
           (\<forall>b' j. \<not> (b' = tb \<and> len1 + i \<le> j \<and> j < len1 + len2) \<longrightarrow>
                load m' b' j = load m b' j) \<and>
           (\<forall>k. i \<le> k \<and> k < len2 \<longrightarrow>
                load m' tb (len1 + k) = Some Null \<or>
                (\<exists>a. load m' tb (len1 + k) = Some (Str a) \<and> bufs m' a \<noteq> None \<and>
                     (load m' tb (len1 + k) = load m tb (len1 + k) \<or> top m \<le> a))) \<and>
           (\<forall>k k'. i \<le> k \<and> k < len2 \<and> i \<le> k' \<and> k' < len2 \<and>
                   load m' tb (len1 + k) = load m' tb (len1 + k') \<and>
                   load m' tb (len1 + k) \<noteq> Some Null \<longrightarrow> k = k') \<and>
           (\<not> err \<longrightarrow>
              (\<forall>k. i \<le> k \<and> k < len2 \<longrightarrow>
                   (\<exists>a bs a'. load m fb k = Some (Str a) \<and> bufs m a = Some bs \<and>
                        load m' tb (len1 + k) = Some (Str a') \<and>
                        bufs m' a' = Some (cstr bs @ [NUL]))))"
  using fr i0 bl src tail tinj sep
proof (induction "nat (len2 - i)" arbitrary: i m)
  case 0
  then have "\<not> i < len2" by simp
  then show ?case using "0.prems"(1) by (subst append_loop.simps) auto
next
  case (Suc d)
  note fr = Suc.prems(1) and i0 = Suc.prems(2) and bl = Suc.prems(3,4)
    and src = Suc.prems(5) and tail = Suc.prems(6) and tinj = Suc.prems(7) and sep = Suc.prems(8)
  from Suc.hyps(2) have lt: "i < len2" by linarith
  let ?s = "len1 + i"
  have nw: "fb \<noteq> tb \<or> k \<noteq> len1 + i" if "k < len2" for k using ne that i0 by auto
  from src[of i] lt obtain a bs where la: "load m fb i = Some (Str a)" and ba: "bufs m a = Some bs"
    and nul: "NUL \<in> set bs" by auto
  from tail[of i] lt obtain as where ls: "load m tb ?s = Some (Str as)"
    and bs0: "bufs m as = Some [NUL]" by auto
  from nul obtain c cs where bcs: "bs = c # cs" by (cases bs) auto
  have d': "d = nat (len2 - (i + 1))" using Suc.hyps(2) by linarith
  have i1: "0 \<le> i + 1" using i0 by simp
  have a_lt: "a < top m" using fresh_live[OF fr, of a] ba by simp
  have as_lt: "as < top m" using fresh_live[OF fr, of as] bs0 by simp
  have a_as: "a \<noteq> as" using sep[of i i] lt la ls by auto
  have tail_lt: "a' < top m" if "i \<le> k" "k < len2" "load m tb (len1 + k) = Some (Str a')" for k a'
    using tail[OF that(1,2)] that(3) fresh_live[OF fr, of a'] by auto
  have tail_ne: "load m tb (len1 + k) \<noteq> Some (Str as)" if "i + 1 \<le> k" "k < len2" for k
    using tinj[of k i] that lt ls by auto
  show ?case
  proof (cases "c = NUL")
    case True
    have unf: "append_loop tb fb len1 len2 i m = append_loop tb fb len1 len2 (i + 1) m"
      by (subst append_loop.simps) (simp add: lt la deref_def ba bcs True)
    have src1: "\<exists>a bs. load m fb k = Some (Str a) \<and> bufs m a = Some bs \<and> NUL \<in> set bs"
      if "i + 1 \<le> k" "k < len2" for k using src[of k] that by simp
    have tail1: "\<exists>a. load m tb (len1 + k) = Some (Str a) \<and> bufs m a = Some [NUL]"
      if "i + 1 \<le> k" "k < len2" for k using tail[of k] that by simp
    have tinj1: "k = k'" if "i + 1 \<le> k" "k < len2" "i + 1 \<le> k'" "k' < len2"
      "load m tb (len1 + k) = load m tb (len1 + k')" for k k' using tinj[of k k'] that by simp
    have sep1: "load m fb k \<noteq> load m tb (len1 + k')" if "i + 1 \<le> k" "k < len2" "i + 1 \<le> k'" "k' < len2"
      for k k' using sep[of k k'] that by simp
    from Suc.hyps(1)[OF d' fr i1 bl src1 tail1 tinj1 sep1] obtain err m' where
      r: "append_loop tb fb len1 len2 (i + 1) m = Some (err, m')" and f': "fresh m'"
      and t': "top m \<le> top m'" and bl': "blen m' = blen m"
      and F1: "\<And>a. a < top m \<and> (\<forall>k. i + 1 \<le> k \<and> k < len2 \<longrightarrow> load m tb (len1 + k) \<noteq> Some (Str a)) \<Longrightarrow>
                bufs m' a = bufs m a"
      and F2: "\<And>b' j. \<not> (b' = tb \<and> len1 + (i + 1) \<le> j \<and> j < len1 + len2) \<Longrightarrow>
                load m' b' j = load m b' j"
      and P: "\<And>k. i + 1 \<le> k \<and> k < len2 \<Longrightarrow>
                load m' tb (len1 + k) = Some Null \<or>
                (\<exists>a. load m' tb (len1 + k) = Some (Str a) \<and> bufs m' a \<noteq> None \<and>
                     (load m' tb (len1 + k) = load m tb (len1 + k) \<or> top m \<le> a))"
      and I: "\<And>k k'. i + 1 \<le> k \<and> k < len2 \<and> i + 1 \<le> k' \<and> k' < len2 \<and>
                   load m' tb (len1 + k) = load m' tb (len1 + k') \<and>
                   load m' tb (len1 + k) \<noteq> Some Null \<Longrightarrow> k = k'"
      and S: "\<not> err \<Longrightarrow> (\<forall>k. i + 1 \<le> k \<and> k < len2 \<longrightarrow>
                   (\<exists>a bs a'. load m fb k = Some (Str a) \<and> bufs m a = Some bs \<and>
                        load m' tb (len1 + k) = Some (Str a') \<and>
                        bufs m' a' = Some (cstr bs @ [NUL])))"
      by blast
    have e: "append_loop tb fb len1 len2 i m = Some (err, m')" using unf r by simp
    have ls': "load m' tb ?s = Some (Str as)" using F2[of tb ?s] ls by simp
    have bs': "bufs m' as = Some [NUL]" using F1[of as] as_lt tail_ne bs0 by auto
    have c1: "\<forall>a. a < top m \<and> (\<forall>k. i \<le> k \<and> k < len2 \<longrightarrow> load m tb (len1 + k) \<noteq> Some (Str a)) \<longrightarrow>
                bufs m' a = bufs m a"
    proof (intro allI impI)
      fix x assume h: "x < top m \<and> (\<forall>k. i \<le> k \<and> k < len2 \<longrightarrow> load m tb (len1 + k) \<noteq> Some (Str x))"
      then have "x < top m \<and> (\<forall>k. i + 1 \<le> k \<and> k < len2 \<longrightarrow> load m tb (len1 + k) \<noteq> Some (Str x))"
        by auto
      then show "bufs m' x = bufs m x" by (rule F1)
    qed
    have c2: "\<forall>b' j. \<not> (b' = tb \<and> len1 + i \<le> j \<and> j < len1 + len2) \<longrightarrow>
                load m' b' j = load m b' j"
    proof (intro allI impI)
      fix b' j assume "\<not> (b' = tb \<and> len1 + i \<le> j \<and> j < len1 + len2)"
      then have "\<not> (b' = tb \<and> len1 + (i + 1) \<le> j \<and> j < len1 + len2)" by auto
      then show "load m' b' j = load m b' j" by (rule F2)
    qed
    have c3: "\<forall>k. i \<le> k \<and> k < len2 \<longrightarrow>
                load m' tb (len1 + k) = Some Null \<or>
                (\<exists>a. load m' tb (len1 + k) = Some (Str a) \<and> bufs m' a \<noteq> None \<and>
                     (load m' tb (len1 + k) = load m tb (len1 + k) \<or> top m \<le> a))"
    proof (intro allI impI)
      fix k assume k: "i \<le> k \<and> k < len2"
      show "load m' tb (len1 + k) = Some Null \<or>
                (\<exists>a. load m' tb (len1 + k) = Some (Str a) \<and> bufs m' a \<noteq> None \<and>
                     (load m' tb (len1 + k) = load m tb (len1 + k) \<or> top m \<le> a))"
      proof (cases "k = i")
        case True
        then show ?thesis using ls' bs' ls by auto
      next
        case False
        with k have "i + 1 \<le> k \<and> k < len2" by simp
        then show ?thesis by (rule P)
      qed
    qed
    have c4: "\<forall>k k'. i \<le> k \<and> k < len2 \<and> i \<le> k' \<and> k' < len2 \<and>
                   load m' tb (len1 + k) = load m' tb (len1 + k') \<and>
                   load m' tb (len1 + k) \<noteq> Some Null \<longrightarrow> k = k'"
    proof (intro allI impI)
      fix k k' assume h: "i \<le> k \<and> k < len2 \<and> i \<le> k' \<and> k' < len2 \<and>
                   load m' tb (len1 + k) = load m' tb (len1 + k') \<and>
                   load m' tb (len1 + k) \<noteq> Some Null"
      have other: False if o: "i + 1 \<le> j \<and> j < len2" "load m' tb (len1 + j) = Some (Str as)" for j
      proof -
        from P[OF o(1)] o(2) have "load m' tb (len1 + j) = load m tb (len1 + j) \<or> top m \<le> as" by auto
        then show False using tail_ne[of j] o as_lt by auto
      qed
      show "k = k'"
      proof (cases "k = i")
        case True
        show ?thesis
        proof (cases "k' = i")
          case True with \<open>k = i\<close> show ?thesis by simp
        next
          case False
          with h have "i + 1 \<le> k' \<and> k' < len2" by simp
          moreover have "load m' tb (len1 + k') = Some (Str as)" using h True ls' by simp
          ultimately show ?thesis using other by blast
        qed
      next
        case False
        show ?thesis
        proof (cases "k' = i")
          case True
          from False h have "i + 1 \<le> k \<and> k < len2" by simp
          moreover have "load m' tb (len1 + k) = Some (Str as)" using h True ls' by simp
          ultimately show ?thesis using other by blast
        next
          case k'ne: False
          with False h have "i + 1 \<le> k \<and> k < len2 \<and> i + 1 \<le> k' \<and> k' < len2 \<and>
                   load m' tb (len1 + k) = load m' tb (len1 + k') \<and>
                   load m' tb (len1 + k) \<noteq> Some Null" by auto
          then show ?thesis by (rule I)
        qed
      qed
    qed
    have c5: "\<not> err \<longrightarrow> (\<forall>k. i \<le> k \<and> k < len2 \<longrightarrow>
                   (\<exists>a bs a'. load m fb k = Some (Str a) \<and> bufs m a = Some bs \<and>
                        load m' tb (len1 + k) = Some (Str a') \<and>
                        bufs m' a' = Some (cstr bs @ [NUL])))"
    proof (intro allI impI)
      fix k assume ne: "\<not> err" and k: "i \<le> k \<and> k < len2"
      show "\<exists>a bs a'. load m fb k = Some (Str a) \<and> bufs m a = Some bs \<and>
                        load m' tb (len1 + k) = Some (Str a') \<and>
                        bufs m' a' = Some (cstr bs @ [NUL])"
      proof (cases "k = i")
        case True
        have "bufs m' as = Some (cstr bs @ [NUL])" using bs' bcs \<open>c = NUL\<close> by (simp add: cstr_empty)
        with la ba ls' True show ?thesis by blast
      next
        case False
        with k have "i + 1 \<le> k \<and> k < len2" by simp
        with S[OF ne] show ?thesis by blast
      qed
    qed
    show ?thesis
      apply (intro exI[of _ err] exI[of _ m'] conjI)
              apply (rule e)
             apply (rule f')
            apply (rule t')
           apply (rule bl')
          apply (rule c1)
         apply (rule c2)
        apply (rule c3)
       apply (rule c4)
      apply (rule c5)
      done
  next
    case False
    from IGRAPH_FREE_slot_Some[OF ls] bs0 obtain m1 where f: "IGRAPH_FREE_slot tb ?s m = Some m1"
      by auto
    from IGRAPH_FREE_slot_D[OF f] ls have
      b1: "bufs m1 = (bufs m)(as := None)" and bl1: "blen m1 = blen m" and sa1: "same_alloc m m1"
      and fr1: "\<And>b' j. b' \<noteq> tb \<or> j \<noteq> ?s \<Longrightarrow> load m1 b' j = load m b' j"
      by (auto simp: released_def)
    have la1: "load m1 fb i = Some (Str a)" using fr1[of fb i] nw[OF lt] la by simp
    have ba1: "bufs m1 a = Some bs" using b1 a_as ba by simp
    from strdup_Some[OF nul, of m1] obtain p m2 where sd: "strdup bs m1 = Some (p, m2)" by blast
    from strdup_D[OF sd] have a2: "arrs m2 = arrs m1"
      and pc: "p = Null \<and> bufs m2 = bufs m1 \<and> top m2 = top m1 \<or>
               p = Str (top m1) \<and> bufs m2 = (bufs m1)(top m1 \<mapsto> cstr bs @ [NUL]) \<and>
               top m2 = top m1 + 1" by auto
    have t1: "top m1 = top m" using sa1 by (simp add: same_alloc_def)
    from a2 have ae2: "load m2 = load m1" "blen m2 = blen m1" using arrs_eq_load by blast+
    have "\<exists>m3. store m2 tb ?s p = Some m3"
      using store_Some[of m2 tb L ?s p] ae2 bl1 bl i0 l1 lt by auto
    then obtain m3 where st: "store m2 tb ?s p = Some m3" by blast
    note sl3 = store_load[OF st] and sf3 = store_frame[OF st]
    have pu: "p \<noteq> Uninit" using pc by auto
    have L3: "load m3 b' j = load m b' j" if "\<not> (b' = tb \<and> j = ?s)" for b' j
      using sl3[of b' j] ae2 fr1[of b' j] that by auto
    have L3s: "load m3 tb ?s = Some p" using sl3[of tb ?s] pu by simp
    have bl3: "blen m3 = blen m" using sf3 ae2 bl1 by simp
    have b3: "bufs m3 = bufs m2" using sf3 by simp
    have t3: "top m3 = top m2" using sf3 by (simp add: same_alloc_def)
    have tt3: "top m \<le> top m3" using t3 pc t1 by auto
    have f3: "fresh m3"
    proof (rule fresh_frame[OF fr bl3 tt3])
      fix x assume x: "top m3 \<le> x"
      then have "bufs m x = None" using fr tt3 by (auto simp: fresh_def)
      then show "bufs m3 x = None" using b3 pc b1 t1 t3 x by auto
    qed
    have keep3: "bufs m3 x = bufs m x" if "x < top m" "x \<noteq> as" for x
      using b3 pc b1 t1 that by auto
    have unf: "append_loop tb fb len1 len2 i m =
        (if p = Null then Some (True, m3) else append_loop tb fb len1 len2 (i + 1) m3)"
      by (subst append_loop.simps)
         (simp add: lt la deref_def ba bcs False f la1 ba1 sd[unfolded bcs] st)
    show ?thesis
    proof (cases "p = Null")
      case True
      have e: "append_loop tb fb len1 len2 i m = Some (True, m3)" using unf True by simp
      have c1: "\<forall>a. a < top m \<and> (\<forall>k. i \<le> k \<and> k < len2 \<longrightarrow> load m tb (len1 + k) \<noteq> Some (Str a)) \<longrightarrow>
                bufs m3 a = bufs m a"
      proof (intro allI impI)
        fix x assume h: "x < top m \<and> (\<forall>k. i \<le> k \<and> k < len2 \<longrightarrow> load m tb (len1 + k) \<noteq> Some (Str x))"
        then have "x \<noteq> as" using ls lt by auto
        with h show "bufs m3 x = bufs m x" using keep3 by simp
      qed
      have c2: "\<forall>b' j. \<not> (b' = tb \<and> len1 + i \<le> j \<and> j < len1 + len2) \<longrightarrow>
                load m3 b' j = load m b' j"
      proof (intro allI impI)
        fix b' j assume "\<not> (b' = tb \<and> len1 + i \<le> j \<and> j < len1 + len2)"
        then have "\<not> (b' = tb \<and> j = ?s)" using lt by auto
        then show "load m3 b' j = load m b' j" by (rule L3)
      qed
      have c3: "\<forall>k. i \<le> k \<and> k < len2 \<longrightarrow>
                load m3 tb (len1 + k) = Some Null \<or>
                (\<exists>a. load m3 tb (len1 + k) = Some (Str a) \<and> bufs m3 a \<noteq> None \<and>
                     (load m3 tb (len1 + k) = load m tb (len1 + k) \<or> top m \<le> a))"
      proof (intro allI impI)
        fix k assume k: "i \<le> k \<and> k < len2"
        show "load m3 tb (len1 + k) = Some Null \<or>
                (\<exists>a. load m3 tb (len1 + k) = Some (Str a) \<and> bufs m3 a \<noteq> None \<and>
                     (load m3 tb (len1 + k) = load m tb (len1 + k) \<or> top m \<le> a))"
        proof (cases "k = i")
          case True
          then show ?thesis using L3s \<open>p = Null\<close> by simp
        next
          case False
          with k have kk: "i + 1 \<le> k" "k < len2" by simp_all
          from tail[of k] kk obtain x where x: "load m tb (len1 + k) = Some (Str x)"
            "bufs m x = Some [NUL]" by auto
          have "x \<noteq> as" using tail_ne[OF kk] x by auto
          moreover have "x < top m" using fresh_live[OF fr, of x] x by simp
          ultimately have "bufs m3 x = bufs m x" using keep3 by simp
          moreover have "load m3 tb (len1 + k) = load m tb (len1 + k)" using L3[of tb "len1 + k"] False by simp
          ultimately show ?thesis using x by simp
        qed
      qed
      have c4: "\<forall>k k'. i \<le> k \<and> k < len2 \<and> i \<le> k' \<and> k' < len2 \<and>
                   load m3 tb (len1 + k) = load m3 tb (len1 + k') \<and>
                   load m3 tb (len1 + k) \<noteq> Some Null \<longrightarrow> k = k'"
      proof (intro allI impI)
        fix k k' assume h: "i \<le> k \<and> k < len2 \<and> i \<le> k' \<and> k' < len2 \<and>
                   load m3 tb (len1 + k) = load m3 tb (len1 + k') \<and>
                   load m3 tb (len1 + k) \<noteq> Some Null"
        then have "k \<noteq> i" "k' \<noteq> i" using L3s \<open>p = Null\<close> by auto
        then have "load m3 tb (len1 + k) = load m tb (len1 + k)"
          "load m3 tb (len1 + k') = load m tb (len1 + k')" using L3 by simp_all
        with h have "load m tb (len1 + k) = load m tb (len1 + k')" by auto
        with h show "k = k'" using tinj[of k k'] by auto
      qed
      have c5: "\<not> True \<longrightarrow> (\<forall>k. i \<le> k \<and> k < len2 \<longrightarrow>
                   (\<exists>a bs a'. load m fb k = Some (Str a) \<and> bufs m a = Some bs \<and>
                        load m3 tb (len1 + k) = Some (Str a') \<and>
                        bufs m3 a' = Some (cstr bs @ [NUL])))" by simp
      show ?thesis
        apply (intro exI[of _ True] exI[of _ m3] conjI)
                apply (rule e)
               apply (rule f3)
              apply (rule tt3)
             apply (rule bl3)
            apply (rule c1)
           apply (rule c2)
          apply (rule c3)
         apply (rule c4)
        apply (rule c5)
        done
    next
      case pn: False
      with pc t1 have p: "p = Str (top m)" and b2: "bufs m2 = (bufs m1)(top m \<mapsto> cstr bs @ [NUL])"
        and t2: "top m2 = top m + 1" by auto
      have tm3: "top m3 = top m + 1" using t3 t2 by simp
      have bn: "bufs m3 (top m) = Some (cstr bs @ [NUL])" using b3 b2 by simp
      have bl3b: "blen m3 tb = Some L" using bl3 bl by simp
      have src3: "\<exists>a bs. load m3 fb k = Some (Str a) \<and> bufs m3 a = Some bs \<and> NUL \<in> set bs"
        if k: "i + 1 \<le> k" "k < len2" for k
      proof -
        from src[of k] k obtain x xs where x: "load m fb k = Some (Str x)" "bufs m x = Some xs"
          "NUL \<in> set xs" by auto
        have "x \<noteq> as" using sep[of k i] k lt x ls by auto
        moreover have "x < top m" using fresh_live[OF fr, of x] x by simp
        ultimately have "bufs m3 x = bufs m x" using keep3 by simp
        moreover have "load m3 fb k = load m fb k" using L3[of fb k] nw[OF k(2)] by auto
        ultimately show ?thesis using x by simp
      qed
      have tail3: "\<exists>a. load m3 tb (len1 + k) = Some (Str a) \<and> bufs m3 a = Some [NUL]"
        if k: "i + 1 \<le> k" "k < len2" for k
      proof -
        from tail[of k] k obtain x where x: "load m tb (len1 + k) = Some (Str x)"
          "bufs m x = Some [NUL]" by auto
        have "x \<noteq> as" using tail_ne[OF k] x by auto
        moreover have "x < top m" using fresh_live[OF fr, of x] x by simp
        ultimately have "bufs m3 x = bufs m x" using keep3 by simp
        moreover have "load m3 tb (len1 + k) = load m tb (len1 + k)" using L3[of tb "len1 + k"] k by simp
        ultimately show ?thesis using x by simp
      qed
      have ld_tail: "load m3 tb (len1 + k) = load m tb (len1 + k)" if "i + 1 \<le> k" for k
        using L3[of tb "len1 + k"] that by simp
      have ld_src: "load m3 fb k = load m fb k" if "k < len2" for k
        using L3[of fb k] nw[OF that] by auto
      have tinj3: "k = k'" if "i + 1 \<le> k" "k < len2" "i + 1 \<le> k'" "k' < len2"
        "load m3 tb (len1 + k) = load m3 tb (len1 + k')" for k k'
        using tinj[of k k'] that ld_tail by simp
      have sep3: "load m3 fb k \<noteq> load m3 tb (len1 + k')"
        if "i + 1 \<le> k" "k < len2" "i + 1 \<le> k'" "k' < len2" for k k'
        using sep[of k k'] that ld_tail ld_src[of k] by simp
      from Suc.hyps(1)[OF d' f3 i1 bl3b bl(2) src3 tail3 tinj3 sep3] obtain err m' where
        r: "append_loop tb fb len1 len2 (i + 1) m3 = Some (err, m')" and f': "fresh m'"
        and t': "top m3 \<le> top m'" and bl': "blen m' = blen m3"
        and F1: "\<And>a. a < top m3 \<and> (\<forall>k. i + 1 \<le> k \<and> k < len2 \<longrightarrow> load m3 tb (len1 + k) \<noteq> Some (Str a)) \<Longrightarrow>
                  bufs m' a = bufs m3 a"
        and F2: "\<And>b' j. \<not> (b' = tb \<and> len1 + (i + 1) \<le> j \<and> j < len1 + len2) \<Longrightarrow>
                  load m' b' j = load m3 b' j"
        and P: "\<And>k. i + 1 \<le> k \<and> k < len2 \<Longrightarrow>
                  load m' tb (len1 + k) = Some Null \<or>
                  (\<exists>a. load m' tb (len1 + k) = Some (Str a) \<and> bufs m' a \<noteq> None \<and>
                       (load m' tb (len1 + k) = load m3 tb (len1 + k) \<or> top m3 \<le> a))"
        and I: "\<And>k k'. i + 1 \<le> k \<and> k < len2 \<and> i + 1 \<le> k' \<and> k' < len2 \<and>
                     load m' tb (len1 + k) = load m' tb (len1 + k') \<and>
                     load m' tb (len1 + k) \<noteq> Some Null \<Longrightarrow> k = k'"
        and S: "\<not> err \<Longrightarrow> (\<forall>k. i + 1 \<le> k \<and> k < len2 \<longrightarrow>
                     (\<exists>a bs a'. load m3 fb k = Some (Str a) \<and> bufs m3 a = Some bs \<and>
                          load m' tb (len1 + k) = Some (Str a') \<and>
                          bufs m' a' = Some (cstr bs @ [NUL])))"
        by blast
      have e: "append_loop tb fb len1 len2 i m = Some (err, m')" using unf pn r by simp
      have tt: "top m \<le> top m'" using t' tm3 by simp
      have bb: "blen m' = blen m" using bl' bl3 by simp
      have nt3: "load m3 tb (len1 + k) \<noteq> Some (Str (top m))" if "i + 1 \<le> k" "k < len2" for k
      proof
        assume "load m3 tb (len1 + k) = Some (Str (top m))"
        then have "load m tb (len1 + k) = Some (Str (top m))" using ld_tail[OF that(1)] by simp
        from tail_lt[OF _ that(2) this] that(1) show False by simp
      qed
      have lsn: "load m' tb ?s = Some (Str (top m))" using F2[of tb ?s] L3s p by simp
      have bsn: "bufs m' (top m) = Some (cstr bs @ [NUL])"
        using F1[of "top m"] tm3 nt3 bn by auto
      have c1: "\<forall>a. a < top m \<and> (\<forall>k. i \<le> k \<and> k < len2 \<longrightarrow> load m tb (len1 + k) \<noteq> Some (Str a)) \<longrightarrow>
                bufs m' a = bufs m a"
      proof (intro allI impI)
        fix x assume h: "x < top m \<and> (\<forall>k. i \<le> k \<and> k < len2 \<longrightarrow> load m tb (len1 + k) \<noteq> Some (Str x))"
        then have xa: "x \<noteq> as" using ls lt by auto
        have "\<forall>k. i + 1 \<le> k \<and> k < len2 \<longrightarrow> load m3 tb (len1 + k) \<noteq> Some (Str x)"
          using h ld_tail by auto
        with h tm3 have "bufs m' x = bufs m3 x" using F1[of x] by simp
        with h xa show "bufs m' x = bufs m x" using keep3 by simp
      qed
      have c2: "\<forall>b' j. \<not> (b' = tb \<and> len1 + i \<le> j \<and> j < len1 + len2) \<longrightarrow>
                load m' b' j = load m b' j"
      proof (intro allI impI)
        fix b' j assume n: "\<not> (b' = tb \<and> len1 + i \<le> j \<and> j < len1 + len2)"
        then have "\<not> (b' = tb \<and> len1 + (i + 1) \<le> j \<and> j < len1 + len2)" by auto
        then have "load m' b' j = load m3 b' j" by (rule F2)
        moreover have "\<not> (b' = tb \<and> j = ?s)" using n lt by auto
        then have "load m3 b' j = load m b' j" by (rule L3)
        ultimately show "load m' b' j = load m b' j" by simp
      qed
      have c3: "\<forall>k. i \<le> k \<and> k < len2 \<longrightarrow>
                load m' tb (len1 + k) = Some Null \<or>
                (\<exists>a. load m' tb (len1 + k) = Some (Str a) \<and> bufs m' a \<noteq> None \<and>
                     (load m' tb (len1 + k) = load m tb (len1 + k) \<or> top m \<le> a))"
      proof (intro allI impI)
        fix k assume k: "i \<le> k \<and> k < len2"
        show "load m' tb (len1 + k) = Some Null \<or>
                (\<exists>a. load m' tb (len1 + k) = Some (Str a) \<and> bufs m' a \<noteq> None \<and>
                     (load m' tb (len1 + k) = load m tb (len1 + k) \<or> top m \<le> a))"
        proof (cases "k = i")
          case True
          then show ?thesis using lsn bsn by simp
        next
          case False
          with k have kk: "i + 1 \<le> k \<and> k < len2" by simp
          from P[OF kk] ld_tail[of k] kk tm3 show ?thesis by auto
        qed
      qed
      have other: False if o: "i + 1 \<le> j \<and> j < len2" "load m' tb (len1 + j) = Some (Str (top m))" for j
      proof -
        from P[OF o(1)] o(2) have "load m' tb (len1 + j) = load m3 tb (len1 + j) \<or> top m3 \<le> top m"
          by auto
        then show False using nt3[of j] o tm3 by auto
      qed
      have c4: "\<forall>k k'. i \<le> k \<and> k < len2 \<and> i \<le> k' \<and> k' < len2 \<and>
                   load m' tb (len1 + k) = load m' tb (len1 + k') \<and>
                   load m' tb (len1 + k) \<noteq> Some Null \<longrightarrow> k = k'"
      proof (intro allI impI)
        fix k k' assume h: "i \<le> k \<and> k < len2 \<and> i \<le> k' \<and> k' < len2 \<and>
                   load m' tb (len1 + k) = load m' tb (len1 + k') \<and>
                   load m' tb (len1 + k) \<noteq> Some Null"
        show "k = k'"
        proof (cases "k = i")
          case True
          show ?thesis
          proof (cases "k' = i")
            case True with \<open>k = i\<close> show ?thesis by simp
          next
            case False
            with h have "i + 1 \<le> k' \<and> k' < len2" by auto
            moreover have "load m' tb (len1 + k') = Some (Str (top m))" using h True lsn by auto
            ultimately show ?thesis using other by blast
          qed
        next
          case False
          show ?thesis
          proof (cases "k' = i")
            case True
            from False h have "i + 1 \<le> k \<and> k < len2" by auto
            moreover have "load m' tb (len1 + k) = Some (Str (top m))" using h True lsn by auto
            ultimately show ?thesis using other by blast
          next
            case k'ne: False
            with False h have "i + 1 \<le> k \<and> k < len2 \<and> i + 1 \<le> k' \<and> k' < len2 \<and>
                     load m' tb (len1 + k) = load m' tb (len1 + k') \<and>
                     load m' tb (len1 + k) \<noteq> Some Null" by auto
            then show ?thesis by (rule I)
          qed
        qed
      qed
      have c5: "\<not> err \<longrightarrow> (\<forall>k. i \<le> k \<and> k < len2 \<longrightarrow>
                   (\<exists>a bs a'. load m fb k = Some (Str a) \<and> bufs m a = Some bs \<and>
                        load m' tb (len1 + k) = Some (Str a') \<and>
                        bufs m' a' = Some (cstr bs @ [NUL])))"
      proof (intro allI impI)
        fix k assume nerr: "\<not> err" and k: "i \<le> k \<and> k < len2"
        show "\<exists>a bs a'. load m fb k = Some (Str a) \<and> bufs m a = Some bs \<and>
                        load m' tb (len1 + k) = Some (Str a') \<and>
                        bufs m' a' = Some (cstr bs @ [NUL])"
        proof (cases "k = i")
          case True
          with la ba lsn bsn show ?thesis by blast
        next
          case False
          with k have kk: "i + 1 \<le> k \<and> k < len2" by simp
          with S[OF nerr] obtain x xs x' where x: "load m3 fb k = Some (Str x)" "bufs m3 x = Some xs"
            "load m' tb (len1 + k) = Some (Str x')" "bufs m' x' = Some (cstr xs @ [NUL])" by blast
          from src[of k] kk obtain y ys where y: "load m fb k = Some (Str y)" "bufs m y = Some ys"
            by auto
          have xy: "x = y" using x(1) y(1) ld_src[of k] kk by simp
          have "y \<noteq> as" using sep[of k i] kk lt y ls by auto
          moreover have "y < top m" using fresh_live[OF fr, of y] y by simp
          ultimately have "bufs m3 y = bufs m y" using keep3 by simp
          with x xy y have "xs = ys" by simp
          with x y show ?thesis by blast
        qed
      qed
      show ?thesis
        apply (intro exI[of _ err] exI[of _ m'] conjI)
                apply (rule e)
               apply (rule f')
              apply (rule tt)
             apply (rule bb)
            apply (rule c1)
           apply (rule c2)
          apply (rule c3)
         apply (rule c4)
        apply (rule c5)
        done
    qed
  qed
qed

subsection \<open>The whole operation\<close>

lemma get_bytes_Str:
  "stor_begin v \<noteq> 0 \<Longrightarrow> load m (stor_begin v) i = Some (Str a) \<Longrightarrow> get_bytes v i m = bufs m a"
  by (simp add: get_bytes_def igraph_strvector_get_def deref_def)

lemma cstr_cstr: "cstr (cstr bs @ [NUL]) = cstr bs"
proof -
  have "\<forall>x \<in> set (takeWhile (\<lambda>c. c \<noteq> NUL) bs). x \<noteq> NUL"
    by (auto dest: set_takeWhileD)
  then show ?thesis by (simp add: cstr_def takeWhile_append2)
qed

lemma append_empty:
  assumes "valid to m" "valid from m" "endp from - stor_begin from = 0"
    and "pt \<noteq> 0" "pf \<noteq> 0" "pt \<noteq> pf" "vs pt = Some to" "vs pf = Some from"
  shows "igraph_strvector_append pt pf vs m = Some (IGRAPH_SUCCESS, vs(pt \<mapsto> to), m)"
proof -
  note vt = valid_base[OF assms(1)] and vf = valid_base[OF assms(2)]
  have s1: "igraph_strvector_size to = Some (endp to - stor_begin to)"
    using vt by (simp add: igraph_strvector_size_def)
  have s2: "igraph_strvector_size from = Some 0"
    using vf assms(3) by (simp add: igraph_strvector_size_def)
  have r: "igraph_strvector_resize to (endp to - stor_begin to + 0) m = Some (IGRAPH_SUCCESS, to, m)"
    using s1 by (simp add: igraph_strvector_resize_def)
  have l: "append_loop (stor_begin to) (stor_begin from) (endp to - stor_begin to) 0 0 m = Some (False, m)"
    by (subst append_loop.simps) simp
  show ?thesis using assms(4-8) s1 s2 r l by (simp add: igraph_strvector_append_def)
qed

text \<open>
  C6. \<open>to\<close> and \<open>from\<close> are two different structs (at the addresses \<open>pt\<close> and \<open>pf\<close>),
  both valid vectors, with different blocks. Then \<^verbatim>\<open>igraph_strvector_append\<close> returns;
  it writes no struct but that of \<open>to\<close>, and whatever it returns the elements of \<open>from\<close>
  read as before. It succeeds when the allocator fails no request. On success the size
  of \<open>to\<close> is the sum of the sizes, its old elements read as before, and element
  \<open>len1 + i\<close> is a buffer holding the C string of element \<open>i\<close> of \<open>from\<close> and its
  terminator. The only error code is \<^verbatim>\<open>IGRAPH_ENOMEM\<close>; when the resize at the start
  succeeded and the call fails all the same, which is the failure of a copy, \<open>to\<close> has its
  old size and its old elements.
\<close>

theorem append_spec:
  assumes vt: "valid to m" and vf: "valid from m" and ne: "stor_begin to \<noteq> stor_begin from"
    and fr: "fresh m"
    and pz: "pt \<noteq> 0" "pf \<noteq> 0" and pn: "pt \<noteq> pf"
    and pt: "vs pt = Some to" and pf: "vs pf = Some from"
  shows "\<exists>e to' m'. igraph_strvector_append pt pf vs m = Some (e, vs(pt \<mapsto> to'), m') \<and>
           (Fail \<notin> set (plan m) \<longrightarrow> e = IGRAPH_SUCCESS) \<and>
           (\<forall>i. 0 \<le> i \<and> i < endp from - stor_begin from \<longrightarrow>
                load m' (stor_begin from) i = load m (stor_begin from) i \<and>
                get_bytes from i m' = get_bytes from i m) \<and>
           (e = IGRAPH_SUCCESS \<longrightarrow>
              igraph_strvector_size to' =
                Some ((endp to - stor_begin to) + (endp from - stor_begin from)) \<and>
              (\<forall>i. 0 \<le> i \<and> i < endp to - stor_begin to \<longrightarrow>
                   get_bytes to' i m' = get_bytes to i m) \<and>
              (\<forall>i. 0 \<le> i \<and> i < endp from - stor_begin from \<longrightarrow>
                   get_bytes to' (endp to - stor_begin to + i) m' =
                     map_option (\<lambda>bs. cstr bs @ [NUL]) (get_bytes from i m) \<and>
                   get_cstr to' (endp to - stor_begin to + i) m' = get_cstr from i m)) \<and>
           (e \<noteq> IGRAPH_SUCCESS \<longrightarrow> e = IGRAPH_ENOMEM) \<and>
           (e \<noteq> IGRAPH_SUCCESS \<and>
            map_option fst (igraph_strvector_resize to
               ((endp to - stor_begin to) + (endp from - stor_begin from)) m) = Some IGRAPH_SUCCESS \<longrightarrow>
              igraph_strvector_size to' = Some (endp to - stor_begin to) \<and>
              (\<forall>i. 0 \<le> i \<and> i < endp to - stor_begin to \<longrightarrow>
                   get_bytes to' i m' = get_bytes to i m))"
    (is "\<exists>e to' m'. ?R e to' m' \<and> ?G e \<and> ?B e to' m' \<and> ?S e to' m' \<and> ?E e to' m' \<and> ?F e to' m'")
proof -
  let ?tb = "stor_begin to"
  let ?fb = "stor_begin from"
  let ?l1 = "endp to - ?tb"
  let ?l2 = "endp from - ?fb"
  note vbt = valid_base[OF vt] and vbf = valid_base[OF vf]
  have l1: "0 \<le> ?l1" and l2: "0 \<le> ?l2" using vbt vbf by simp_all
  have tz: "?tb \<noteq> 0" and fz: "?fb \<noteq> 0" using vbt vbf by simp_all
  have s1: "igraph_strvector_size to = Some ?l1" using vbt by (simp add: igraph_strvector_size_def)
  have s2: "igraph_strvector_size from = Some ?l2" using vbf by (simp add: igraph_strvector_size_def)
  have liveA: "\<exists>a bs. load m ?tb i = Some (Str a) \<and> bufs m a = Some bs \<and> NUL \<in> set bs \<and> a < top m"
    if "0 \<le> i" "i < ?l1" for i
  proof -
    from valid_D[OF vt that] obtain a bs where a: "load m ?tb i = Some (Str a)" "bufs m a = Some bs"
      "NUL \<in> set bs" by blast
    then have "a < top m" using fresh_live[OF fr, of a] by simp
    with a show ?thesis by blast
  qed
  have liveB: "\<exists>a bs. load m ?fb i = Some (Str a) \<and> bufs m a = Some bs \<and> NUL \<in> set bs \<and> a < top m"
    if "0 \<le> i" "i < ?l2" for i
  proof -
    from valid_D[OF vf that] obtain a bs where a: "load m ?fb i = Some (Str a)" "bufs m a = Some bs"
      "NUL \<in> set bs" by blast
    then have "a < top m" using fresh_live[OF fr, of a] by simp
    with a show ?thesis by blast
  qed
  from vf have alf: "arrs m ?fb \<noteq> None" by (simp add: valid_def)
  from fr have tp: "0 < top m" by (simp add: fresh_def)
  \<comment> \<open>what it takes for both vectors to read as before\<close>
  have same: "(\<forall>i. 0 \<le> i \<and> i < ?l2 \<longrightarrow>
                 load m' ?fb i = load m ?fb i \<and> get_bytes from i m' = get_bytes from i m) \<and>
              (\<forall>i. 0 \<le> i \<and> i < ?l1 \<longrightarrow> get_bytes to' i m' = get_bytes to i m)"
    if B: "\<And>a. a < top m \<Longrightarrow> bufs m' a = bufs m a"
      and LB: "\<And>j. 0 \<le> j \<Longrightarrow> j < ?l2 \<Longrightarrow> load m' ?fb j = load m ?fb j"
      and LA: "\<And>j. 0 \<le> j \<Longrightarrow> j < ?l1 \<Longrightarrow> load m' (stor_begin to') j = load m ?tb j"
      and Z: "stor_begin to' \<noteq> 0"
    for to' m'
  proof (intro conjI allI impI)
    fix i assume i: "0 \<le> i \<and> i < ?l2"
    from liveB[of i] i obtain a where a: "load m ?fb i = Some (Str a)" "a < top m" by auto
    show "load m' ?fb i = load m ?fb i" using LB[of i] i by simp
    then show "get_bytes from i m' = get_bytes from i m"
      using a B[of a] fz by (simp add: get_bytes_Str)
  next
    fix i assume i: "0 \<le> i \<and> i < ?l1"
    from liveA[of i] i obtain a where a: "load m ?tb i = Some (Str a)" "a < top m" by auto
    have "load m' (stor_begin to') i = Some (Str a)" using LA[of i] i a by simp
    then show "get_bytes to' i m' = get_bytes to i m"
      using a B[of a] tz Z by (simp add: get_bytes_Str)
  qed
  show ?thesis
  proof (cases "?l2 = 0")
    case True
    have e: "igraph_strvector_append pt pf vs m = Some (IGRAPH_SUCCESS, vs(pt \<mapsto> to), m)"
      by (rule append_empty[OF vt vf True pz pn pt pf])
    have G: "?G IGRAPH_SUCCESS" by simp
    have nil: "\<forall>i. 0 \<le> i \<and> i < ?l2 \<longrightarrow> P i" for P using True by auto
    have B: "?B IGRAPH_SUCCESS to m" by (rule nil)
    have S: "?S IGRAPH_SUCCESS to m"
    proof (intro impI conjI)
      show "igraph_strvector_size to = Some (?l1 + ?l2)" using s1 True by simp
      show "\<forall>i. 0 \<le> i \<and> i < ?l1 \<longrightarrow> get_bytes to i m = get_bytes to i m" by simp
      show "\<forall>i. 0 \<le> i \<and> i < ?l2 \<longrightarrow>
                   get_bytes to (?l1 + i) m = map_option (\<lambda>bs. cstr bs @ [NUL]) (get_bytes from i m) \<and>
                   get_cstr to (?l1 + i) m = get_cstr from i m" by (rule nil)
    qed
    have E: "?E IGRAPH_SUCCESS to m" by simp
    have F: "?F IGRAPH_SUCCESS to m" by simp
    show ?thesis
      apply (intro exI[of _ IGRAPH_SUCCESS] exI[of _ to] exI[of _ m] conjI)
           apply (rule e)
          apply (rule G)
         apply (rule B)
        apply (rule S)
       apply (rule E)
      apply (rule F)
      done
  next
    case False
    with l2 have pos: "0 < ?l2" by simp
    then have gt: "?l1 < ?l1 + ?l2" by simp
    from resize_grows[OF vt fr gt] obtain e1 to1 m1 where
      rs: "igraph_strvector_resize to (?l1 + ?l2) m = Some (e1, to1, m1)" and f1: "fresh m1"
      and t1: "top m \<le> top m1"
      and bf1: "\<And>a. a < top m \<Longrightarrow> bufs m1 a = bufs m a"
      and ob1: "\<And>b' j. b' \<noteq> ?tb \<and> arrs m b' \<noteq> None \<Longrightarrow> load m1 b' j = load m b' j"
      and ee1: "e1 = IGRAPH_SUCCESS \<or> e1 = IGRAPH_ENOMEM"
      and ok1: "e1 = IGRAPH_SUCCESS \<Longrightarrow>
              stor_begin to1 \<noteq> 0 \<and> endp to1 = stor_begin to1 + (?l1 + ?l2) \<and>
              blen m1 (stor_begin to1) = Some (?l1 + ?l2) \<and>
              (stor_begin to1 = ?tb \<or> arrs m (stor_begin to1) = None) \<and>
              (\<forall>j. 0 \<le> j \<and> j < ?l1 \<longrightarrow> load m1 (stor_begin to1) j = load m ?tb j) \<and>
              (\<exists>t0. top m \<le> t0 \<and>
                 (\<forall>j. ?l1 \<le> j \<and> j < ?l1 + ?l2 \<longrightarrow>
                      load m1 (stor_begin to1) j = Some (Str (t0 + (j - ?l1))) \<and>
                      bufs m1 (t0 + (j - ?l1)) = Some [NUL]))"
      by blast
    have lb1: "load m1 ?fb j = load m ?fb j" for j using ob1[of ?fb j] ne alf by simp
    show ?thesis
    proof (cases "e1 = IGRAPH_SUCCESS")
      case fail: False
      then have e: "igraph_strvector_append pt pf vs m = Some (e1, vs(pt \<mapsto> to1), m1)"
        using s1 s2 rs pz pn pt pf by (simp add: igraph_strvector_append_def)
      have G: "?G e1" using resize_granted[OF _ rs tp] by blast
      have en: "e1 = IGRAPH_ENOMEM" using ee1 fail by simp
      have B: "\<forall>i. 0 \<le> i \<and> i < ?l2 \<longrightarrow>
                 load m1 ?fb i = load m ?fb i \<and> get_bytes from i m1 = get_bytes from i m"
      proof (intro allI impI)
        fix i assume i: "0 \<le> i \<and> i < ?l2"
        from liveB[of i] i obtain a where a: "load m ?fb i = Some (Str a)" "a < top m" by auto
        then show "load m1 ?fb i = load m ?fb i \<and> get_bytes from i m1 = get_bytes from i m"
          using lb1[of i] bf1[of a] fz by (simp add: get_bytes_Str)
      qed
      have S: "?S e1 to1 m1" using fail by simp
      have E: "?E e1 to1 m1" using en by simp
      have F: "?F e1 to1 m1" using fail by (simp add: rs)
      show ?thesis
        apply (intro exI[of _ e1] exI[of _ to1] exI[of _ m1] conjI)
             apply (rule e)
            apply (rule G)
           apply (rule B)
          apply (rule S)
         apply (rule E)
        apply (rule F)
        done
    next
      case True
      let ?tb1 = "stor_begin to1"
      from ok1[OF True] obtain t0 where z1: "?tb1 \<noteq> 0" and en1: "endp to1 = ?tb1 + (?l1 + ?l2)"
        and bl1: "blen m1 ?tb1 = Some (?l1 + ?l2)"
        and nb: "?tb1 = ?tb \<or> arrs m ?tb1 = None"
        and la1: "\<And>j. 0 \<le> j \<and> j < ?l1 \<Longrightarrow> load m1 ?tb1 j = load m ?tb j"
        and t0: "top m \<le> t0"
        and tl1: "\<And>j. ?l1 \<le> j \<and> j < ?l1 + ?l2 \<Longrightarrow>
                      load m1 ?tb1 j = Some (Str (t0 + (j - ?l1))) \<and>
                      bufs m1 (t0 + (j - ?l1)) = Some [NUL]"
        by blast
      have ne1: "?tb1 \<noteq> ?fb" using nb ne alf by auto
      have src: "\<exists>a bs. load m1 ?fb k = Some (Str a) \<and> bufs m1 a = Some bs \<and> NUL \<in> set bs"
        if "0 \<le> k" "k < ?l2" for k
      proof -
        from liveB[OF that] obtain a bs where a: "load m ?fb k = Some (Str a)" "bufs m a = Some bs"
          "NUL \<in> set bs" "a < top m" by blast
        then have "load m1 ?fb k = Some (Str a)" "bufs m1 a = Some bs"
          using lb1[of k] bf1[of a] by simp_all
        with a(3) show ?thesis by blast
      qed
      have tlk: "load m1 ?tb1 (?l1 + k) = Some (Str (t0 + k)) \<and> bufs m1 (t0 + k) = Some [NUL]"
        if "0 \<le> k" "k < ?l2" for k
      proof -
        have "?l1 \<le> ?l1 + k \<and> ?l1 + k < ?l1 + ?l2" using that by simp
        from tl1[OF this] show ?thesis by (simp only: add_diff_cancel_left')
      qed
      have tail: "\<exists>a. load m1 ?tb1 (?l1 + k) = Some (Str a) \<and> bufs m1 a = Some [NUL]"
        if "0 \<le> k" "k < ?l2" for k
        using tlk[OF that] by blast
      have tinj: "k = k'" if "0 \<le> k" "k < ?l2" "0 \<le> k'" "k' < ?l2"
        "load m1 ?tb1 (?l1 + k) = load m1 ?tb1 (?l1 + k')" for k k'
      proof -
        have "Some (Str (t0 + k)) = Some (Str (t0 + k'))"
          using tlk[OF that(1,2)] tlk[OF that(3,4)] that(5) by (simp only:)
        then show ?thesis by simp
      qed
      have sep: "load m1 ?fb k \<noteq> load m1 ?tb1 (?l1 + k')"
        if k: "0 \<le> k" "k < ?l2" "0 \<le> k'" "k' < ?l2" for k k'
      proof -
        from liveB[OF k(1,2)] obtain a where a: "load m ?fb k = Some (Str a)" "a < top m" by auto
        have "load m1 ?tb1 (?l1 + k') = Some (Str (t0 + k'))" using tlk[OF k(3,4)] by blast
        moreover have "a \<noteq> t0 + k'" using a t0 k by simp
        moreover have "load m1 ?fb k = Some (Str a)" using lb1[of k] a by simp
        ultimately show ?thesis by simp
      qed
      from append_loop_spec[OF f1 disjI1[OF ne1] order_refl l1 bl1 order_refl src tail tinj sep]
      obtain err m2 where
        lp: "append_loop ?tb1 ?fb ?l1 ?l2 0 m1 = Some (err, m2)" and f2: "fresh m2"
        and t2: "top m1 \<le> top m2" and bl2: "blen m2 = blen m1"
        and F1: "\<And>a. a < top m1 \<and> (\<forall>k. 0 \<le> k \<and> k < ?l2 \<longrightarrow> load m1 ?tb1 (?l1 + k) \<noteq> Some (Str a)) \<Longrightarrow>
                  bufs m2 a = bufs m1 a"
        and F2: "\<And>b' j. \<not> (b' = ?tb1 \<and> ?l1 + 0 \<le> j \<and> j < ?l1 + ?l2) \<Longrightarrow>
                  load m2 b' j = load m1 b' j"
        and P: "\<And>k. 0 \<le> k \<and> k < ?l2 \<Longrightarrow>
                  load m2 ?tb1 (?l1 + k) = Some Null \<or>
                  (\<exists>a. load m2 ?tb1 (?l1 + k) = Some (Str a) \<and> bufs m2 a \<noteq> None \<and>
                       (load m2 ?tb1 (?l1 + k) = load m1 ?tb1 (?l1 + k) \<or> top m1 \<le> a))"
        and I: "\<And>k k'. 0 \<le> k \<and> k < ?l2 \<and> 0 \<le> k' \<and> k' < ?l2 \<and>
                     load m2 ?tb1 (?l1 + k) = load m2 ?tb1 (?l1 + k') \<and>
                     load m2 ?tb1 (?l1 + k) \<noteq> Some Null \<Longrightarrow> k = k'"
        and S: "\<not> err \<Longrightarrow> (\<forall>k. 0 \<le> k \<and> k < ?l2 \<longrightarrow>
                     (\<exists>a bs a'. load m1 ?fb k = Some (Str a) \<and> bufs m1 a = Some bs \<and>
                          load m2 ?tb1 (?l1 + k) = Some (Str a') \<and>
                          bufs m2 a' = Some (cstr bs @ [NUL])))"
        by blast
      have old2: "bufs m2 a = bufs m a" if a: "a < top m" for a
      proof -
        have "\<forall>k. 0 \<le> k \<and> k < ?l2 \<longrightarrow> load m1 ?tb1 (?l1 + k) \<noteq> Some (Str a)"
        proof (intro allI impI)
          fix k assume k: "0 \<le> k \<and> k < ?l2"
          have "load m1 ?tb1 (?l1 + k) = Some (Str (t0 + k))" using tlk[of k] k by blast
          moreover have "a \<noteq> t0 + k" using a t0 k by simp
          ultimately show "load m1 ?tb1 (?l1 + k) \<noteq> Some (Str a)" by simp
        qed
        with a t1 have "bufs m2 a = bufs m1 a" using F1[of a] by simp
        with bf1[OF a] show ?thesis by simp
      qed
      have lb2: "load m2 ?fb j = load m ?fb j" for j using F2[of ?fb j] ne1 lb1[of j] by simp
      have la2: "load m2 ?tb1 j = load m ?tb j" if "0 \<le> j" "j < ?l1" for j
        using F2[of ?tb1 j] la1[of j] that by simp
      show ?thesis
      proof (cases err)
        case noerr: False
        have e: "igraph_strvector_append pt pf vs m = Some (IGRAPH_SUCCESS, vs(pt \<mapsto> to1), m2)"
          using s1 s2 rs True lp noerr pz pn pt pf by (simp add: igraph_strvector_append_def)
        have G: "?G IGRAPH_SUCCESS" by simp
        have sz: "igraph_strvector_size to1 = Some (?l1 + ?l2)"
          using z1 en1 by (simp add: igraph_strvector_size_def)
        note sm = same[of m2 to1, OF old2 lb2 la2 z1]
        have new: "\<forall>i. 0 \<le> i \<and> i < ?l2 \<longrightarrow>
                   get_bytes to1 (?l1 + i) m2 = map_option (\<lambda>bs. cstr bs @ [NUL]) (get_bytes from i m) \<and>
                   get_cstr to1 (?l1 + i) m2 = get_cstr from i m"
        proof (intro allI impI)
          fix i assume i: "0 \<le> i \<and> i < ?l2"
          from S[OF noerr] i obtain a bs a' where x: "load m1 ?fb i = Some (Str a)"
            "bufs m1 a = Some bs" "load m2 ?tb1 (?l1 + i) = Some (Str a')"
            "bufs m2 a' = Some (cstr bs @ [NUL])" by blast
          from liveB[of i] i obtain y where y: "load m ?fb i = Some (Str y)" "y < top m" by auto
          have "a = y" using x(1) y(1) lb1[of i] by simp
          then have "bufs m a = Some bs" using bf1[of y] y x by simp
          then have gf: "get_bytes from i m = Some bs" using y \<open>a = y\<close> fz by (simp add: get_bytes_Str)
          have gt': "get_bytes to1 (?l1 + i) m2 = Some (cstr bs @ [NUL])"
            using x z1 by (simp add: get_bytes_Str)
          show "get_bytes to1 (?l1 + i) m2 = map_option (\<lambda>bs. cstr bs @ [NUL]) (get_bytes from i m) \<and>
                   get_cstr to1 (?l1 + i) m2 = get_cstr from i m"
            using gf gt' by (simp add: get_cstr_def cstr_cstr)
        qed
        have B: "?B IGRAPH_SUCCESS to1 m2" using sm by blast
        have S: "?S IGRAPH_SUCCESS to1 m2"
        proof (intro impI conjI)
          show "igraph_strvector_size to1 = Some (?l1 + ?l2)" by (rule sz)
          show "\<forall>i. 0 \<le> i \<and> i < ?l1 \<longrightarrow> get_bytes to1 i m2 = get_bytes to i m" using sm by blast
          show "\<forall>i. 0 \<le> i \<and> i < ?l2 \<longrightarrow>
                   get_bytes to1 (?l1 + i) m2 = map_option (\<lambda>bs. cstr bs @ [NUL]) (get_bytes from i m) \<and>
                   get_cstr to1 (?l1 + i) m2 = get_cstr from i m" by (rule new)
        qed
        have E: "?E IGRAPH_SUCCESS to1 m2" by simp
        have F: "?F IGRAPH_SUCCESS to1 m2" by simp
        show ?thesis
          apply (intro exI[of _ IGRAPH_SUCCESS] exI[of _ to1] exI[of _ m2] conjI)
               apply (rule e)
              apply (rule G)
             apply (rule B)
            apply (rule S)
           apply (rule E)
          apply (rule F)
          done
      next
        case iserr: True
        let ?hi = "?l1 + ?l2"
        have okf: "load m2 ?tb1 i = Some Null \<or> (\<exists>a. load m2 ?tb1 i = Some (Str a) \<and> bufs m2 a \<noteq> None)"
          if "?l1 \<le> i" "i < ?hi" for i
          using P[of "i - ?l1"] that by auto
        have injf: "i = j" if "?l1 \<le> i" "i < ?hi" "?l1 \<le> j" "j < ?hi"
          "load m2 ?tb1 i = load m2 ?tb1 j" "load m2 ?tb1 i \<noteq> Some Null" for i j
        proof -
          have "i - ?l1 = j - ?l1" using I[of "i - ?l1" "j - ?l1"] that by auto
          then show ?thesis by simp
        qed
        from free_loops_spec[of ?l1 ?hi m2 ?tb1, OF okf injf] obtain m3 where
          fl: "free_loop ?tb1 ?l1 ?hi m2 = Some m3"
          and fr3: "\<And>b' j. \<not> (b' = ?tb1 \<and> ?l1 \<le> j \<and> j < ?hi) \<Longrightarrow> load m3 b' j = load m2 b' j"
          and bf3: "\<And>a. bufs m3 a =
              (if \<exists>i. ?l1 \<le> i \<and> i < ?hi \<and> load m2 ?tb1 i = Some (Str a) then None else bufs m2 a)"
          by blast
        let ?to2 = "to1\<lparr>endp := ?tb1 + ?l1\<rparr>"
        have sz1: "igraph_strvector_size to1 = Some ?hi"
          using z1 en1 by (simp add: igraph_strvector_size_def)
        have rs2: "igraph_strvector_resize to1 ?l1 m2 = Some (IGRAPH_SUCCESS, ?to2, m3)"
          using sz1 pos fl by (simp add: igraph_strvector_resize_def)
        have e: "igraph_strvector_append pt pf vs m = Some (IGRAPH_ENOMEM, vs(pt \<mapsto> ?to2), m3)"
          using s1 s2 rs True lp iserr rs2 pz pn pt pf by (simp add: igraph_strvector_append_def)
        have G: "?G IGRAPH_ENOMEM"
        proof
          assume g: "Fail \<notin> set (plan m)"
          from resize_granted[OF g rs tp] have "Fail \<notin> set (plan m1)" by simp
          from append_loop_granted[OF this lp] iserr show "IGRAPH_ENOMEM = IGRAPH_SUCCESS" by simp
        qed
        have sz: "igraph_strvector_size ?to2 = Some ?l1"
          using z1 by (simp add: igraph_strvector_size_def)
        have old3: "bufs m3 a = bufs m a" if a: "a < top m" for a
        proof -
          have "\<not> (\<exists>i. ?l1 \<le> i \<and> i < ?hi \<and> load m2 ?tb1 i = Some (Str a))"
          proof
            assume "\<exists>i. ?l1 \<le> i \<and> i < ?hi \<and> load m2 ?tb1 i = Some (Str a)"
            then obtain i where i: "?l1 \<le> i" "i < ?hi" "load m2 ?tb1 i = Some (Str a)" by blast
            from P[of "i - ?l1"] i have "load m2 ?tb1 i = load m1 ?tb1 i \<or> top m1 \<le> a" by auto
            moreover have "load m1 ?tb1 i = Some (Str (t0 + (i - ?l1)))" using tl1[of i] i by simp
            ultimately show False using i a t0 t1 by auto
          qed
          then have "bufs m3 a = bufs m2 a" using bf3[of a] by auto
          with old2[OF a] show ?thesis by simp
        qed
        have lb3: "load m3 ?fb j = load m ?fb j" for j using fr3[of ?fb j] ne1 lb2[of j] by simp
        have la3: "load m3 (stor_begin ?to2) j = load m ?tb j" if "0 \<le> j" "j < ?l1" for j
          using fr3[of ?tb1 j] la2[of j] that by simp
        have z2: "stor_begin ?to2 \<noteq> 0" using z1 by simp
        note sm = same[of m3 ?to2, OF old3 lb3 la3 z2]
        have B: "?B IGRAPH_ENOMEM ?to2 m3" using sm by blast
        have S: "?S IGRAPH_ENOMEM ?to2 m3" by simp
        have E: "?E IGRAPH_ENOMEM ?to2 m3" by simp
        have F: "?F IGRAPH_ENOMEM ?to2 m3"
        proof (intro impI conjI)
          show "igraph_strvector_size ?to2 = Some ?l1" by (rule sz)
          show "\<forall>i. 0 \<le> i \<and> i < ?l1 \<longrightarrow> get_bytes ?to2 i m3 = get_bytes to i m" using sm by blast
        qed
        show ?thesis
          apply (intro exI[of _ IGRAPH_ENOMEM] exI[of _ ?to2] exI[of _ m3] conjI)
               apply (rule e)
              apply (rule G)
             apply (rule B)
            apply (rule S)
           apply (rule E)
          apply (rule F)
          done
      qed
    qed
  qed
qed

text \<open>
  Appending \<open>["c","","de"]\<close> to \<open>["a","b"]\<close>: once with every allocation granted, once
  with the copy of \<open>"de"\<close> failing after that of \<open>"c"\<close> succeeded.
\<close>

theorem append_spec_witness:
  "valid (vec 2) (pair_mem [''a'', ''b''] [''c'', [], ''de''] [] True) \<and>
   valid (vec2 3) (pair_mem [''a'', ''b''] [''c'', [], ''de''] [] True) \<and>
   fresh (pair_mem [''a'', ''b''] [''c'', [], ''de''] [] True) \<and>
   (case igraph_strvector_append 10 20 [10 \<mapsto> vec 2, 20 \<mapsto> vec2 3]
           (pair_mem [''a'', ''b''] [''c'', [], ''de''] [] True) of
      None \<Rightarrow> False
    | Some (e, vs', m') \<Rightarrow>
        e = IGRAPH_SUCCESS \<and> vs' 20 = Some (vec2 3) \<and>
        map_option igraph_strvector_size (vs' 10) = Some (Some 5) \<and>
        map_option (\<lambda>to'. strings to' m') (vs' 10) =
          Some [Some ''a'', Some ''b'', Some ''c'', Some [], Some ''de''] \<and>
        strings (vec2 3) m' = [Some ''c'', Some [], Some ''de'']) \<and>
   (case igraph_strvector_append 10 20 [10 \<mapsto> vec 2, 20 \<mapsto> vec2 3]
           (pair_mem [''a'', ''b''] [''c'', [], ''de'']
              [Inplace, Inplace, Inplace, Inplace, Inplace, Fail] True) of
      None \<Rightarrow> False
    | Some (e, vs', m') \<Rightarrow>
        e = IGRAPH_ENOMEM \<and> vs' 20 = Some (vec2 3) \<and>
        map_option igraph_strvector_size (vs' 10) = Some (Some 2) \<and>
        map_option (\<lambda>to'. strings to' m') (vs' 10) = Some [Some ''a'', Some ''b''] \<and>
        strings (vec2 3) m' = [Some ''c'', Some [], Some ''de''])"
proof -
  have v1: "valid (vec 2) (pair_mem [''a'', ''b''] [''c'', [], ''de''] pl True)" for pl
    by (simp add: observers fixture mem_ops eval_nat_numeral)
  have v2: "valid (vec2 3) (pair_mem [''a'', ''b''] [''c'', [], ''de''] pl True)" for pl
    by (simp add: observers fixture mem_ops eval_nat_numeral)
  have n: "stor_begin (vec 2) \<noteq> stor_begin (vec2 3)" by (simp add: fixture)
  have f: "fresh (pair_mem [''a'', ''b''] [''c'', [], ''de''] pl True)" for pl
    by (simp add: fresh_def fixture eval_nat_numeral)
  have p: "(10::int) \<noteq> 0" "(20::int) \<noteq> 0" "(10::int) \<noteq> 20"
    "[10 \<mapsto> vec 2, 20 \<mapsto> vec2 3] (10::int) = Some (vec 2)"
    "[10 \<mapsto> vec 2, 20 \<mapsto> vec2 3] (20::int) = Some (vec2 3)" by simp_all
  show ?thesis
    using v1 v2 f append_spec[OF v1 v2 n f p, of "[]"]
      append_spec[OF v1 v2 n f p, of "[Inplace, Inplace, Inplace, Inplace, Inplace, Fail]"]
    by (simp add: vec_ops loops mem_ops observers fixture eval_nat_numeral)
qed

text \<open>
  The same struct passed twice. The loop reads \<^verbatim>\<open>from->stor_begin\<close> after the resize has
  written the struct, so it copies from the block as it is then, whether it has moved
  or not: a valid vector appended to itself holds its elements twice.
\<close>

lemma append_to_itself_spec:
  assumes vt: "valid to m" and fr: "fresh m" and pz: "pt \<noteq> 0" and pt: "vs pt = Some to"
  shows "\<exists>e to' m'. igraph_strvector_append pt pt vs m = Some (e, vs(pt \<mapsto> to'), m') \<and>
           (Fail \<notin> set (plan m) \<longrightarrow> e = IGRAPH_SUCCESS) \<and>
           (e = IGRAPH_SUCCESS \<longrightarrow>
              igraph_strvector_size to' = Some (2 * (endp to - stor_begin to)) \<and>
              (\<forall>i. 0 \<le> i \<and> i < endp to - stor_begin to \<longrightarrow>
                   get_bytes to' i m' = get_bytes to i m \<and>
                   get_bytes to' (endp to - stor_begin to + i) m' =
                     map_option (\<lambda>bs. cstr bs @ [NUL]) (get_bytes to i m))) \<and>
           (e \<noteq> IGRAPH_SUCCESS \<longrightarrow> e = IGRAPH_ENOMEM) \<and>
           (e \<noteq> IGRAPH_SUCCESS \<and>
            map_option fst (igraph_strvector_resize to
               ((endp to - stor_begin to) + (endp to - stor_begin to)) m) = Some IGRAPH_SUCCESS \<longrightarrow>
              igraph_strvector_size to' = Some (endp to - stor_begin to) \<and>
              (\<forall>i. 0 \<le> i \<and> i < endp to - stor_begin to \<longrightarrow>
                   get_bytes to' i m' = get_bytes to i m))"
    (is "\<exists>e to' m'. ?R e to' m' \<and> ?G e \<and> ?S e to' m' \<and> ?E e to' m' \<and> ?F e to' m'")
proof -
  let ?tb = "stor_begin to"
  let ?l1 = "endp to - ?tb"
  note vbt = valid_base[OF vt]
  have l1: "0 \<le> ?l1" using vbt by simp
  have tz: "?tb \<noteq> 0" using vbt by simp
  from fr have tp: "0 < top m" by (simp add: fresh_def)
  have s1: "igraph_strvector_size to = Some ?l1" using vbt by (simp add: igraph_strvector_size_def)
  have liveA: "\<exists>a bs. load m ?tb i = Some (Str a) \<and> bufs m a = Some bs \<and> NUL \<in> set bs \<and> a < top m"
    if "0 \<le> i" "i < ?l1" for i
  proof -
    from valid_D[OF vt that] obtain a bs where a: "load m ?tb i = Some (Str a)" "bufs m a = Some bs"
      "NUL \<in> set bs" by blast
    then have "a < top m" using fresh_live[OF fr, of a] by simp
    with a show ?thesis by blast
  qed
  \<comment> \<open>what it takes for the old elements to read as before\<close>
  have same: "\<forall>i. 0 \<le> i \<and> i < ?l1 \<longrightarrow> get_bytes to' i m' = get_bytes to i m"
    if B: "\<And>a. a < top m \<Longrightarrow> bufs m' a = bufs m a"
      and LA: "\<And>j. 0 \<le> j \<Longrightarrow> j < ?l1 \<Longrightarrow> load m' (stor_begin to') j = load m ?tb j"
      and Z: "stor_begin to' \<noteq> 0"
    for to' m'
  proof (intro allI impI)
    fix i assume i: "0 \<le> i \<and> i < ?l1"
    from liveA[of i] i obtain a where a: "load m ?tb i = Some (Str a)" "a < top m" by auto
    have "load m' (stor_begin to') i = Some (Str a)" using LA[of i] i a by simp
    then show "get_bytes to' i m' = get_bytes to i m"
      using a B[of a] tz Z by (simp add: get_bytes_Str)
  qed
  show ?thesis
  proof (cases "?l1 = 0")
    case True
    have r: "igraph_strvector_resize to (?l1 + ?l1) m = Some (IGRAPH_SUCCESS, to, m)"
      using s1 True by (simp add: igraph_strvector_resize_def)
    have l: "append_loop ?tb ?tb ?l1 ?l1 0 m = Some (False, m)"
      using True by (subst append_loop.simps) simp
    have e: "igraph_strvector_append pt pt vs m = Some (IGRAPH_SUCCESS, vs(pt \<mapsto> to), m)"
      using pz pt s1 r l by (simp add: igraph_strvector_append_def)
    have G: "?G IGRAPH_SUCCESS" by simp
    have S: "?S IGRAPH_SUCCESS to m" using s1 True by auto
    have E: "?E IGRAPH_SUCCESS to m" by simp
    have F: "?F IGRAPH_SUCCESS to m" by simp
    show ?thesis
      apply (intro exI[of _ IGRAPH_SUCCESS] exI[of _ to] exI[of _ m] conjI)
          apply (rule e)
         apply (rule G)
        apply (rule S)
       apply (rule E)
      apply (rule F)
      done
  next
    case False
    with l1 have pos: "0 < ?l1" by simp
    then have gt: "?l1 < ?l1 + ?l1" by simp
    from resize_grows[OF vt fr gt] obtain e1 to1 m1 where
      rs: "igraph_strvector_resize to (?l1 + ?l1) m = Some (e1, to1, m1)" and f1: "fresh m1"
      and t1: "top m \<le> top m1"
      and bf1: "\<And>a. a < top m \<Longrightarrow> bufs m1 a = bufs m a"
      and ee1: "e1 = IGRAPH_SUCCESS \<or> e1 = IGRAPH_ENOMEM"
      and ok1: "e1 = IGRAPH_SUCCESS \<Longrightarrow>
              stor_begin to1 \<noteq> 0 \<and> endp to1 = stor_begin to1 + (?l1 + ?l1) \<and>
              blen m1 (stor_begin to1) = Some (?l1 + ?l1) \<and>
              (stor_begin to1 = ?tb \<or> arrs m (stor_begin to1) = None) \<and>
              (\<forall>j. 0 \<le> j \<and> j < ?l1 \<longrightarrow> load m1 (stor_begin to1) j = load m ?tb j) \<and>
              (\<exists>t0. top m \<le> t0 \<and>
                 (\<forall>j. ?l1 \<le> j \<and> j < ?l1 + ?l1 \<longrightarrow>
                      load m1 (stor_begin to1) j = Some (Str (t0 + (j - ?l1))) \<and>
                      bufs m1 (t0 + (j - ?l1)) = Some [NUL]))"
      by blast
    show ?thesis
    proof (cases "e1 = IGRAPH_SUCCESS")
      case fail: False
      then have e: "igraph_strvector_append pt pt vs m = Some (e1, vs(pt \<mapsto> to1), m1)"
        using s1 rs pz pt by (simp add: igraph_strvector_append_def)
      have en: "e1 = IGRAPH_ENOMEM" using ee1 fail by simp
      have G: "?G e1" using resize_granted[OF _ rs tp] by blast
      have S: "?S e1 to1 m1" using fail by simp
      have E: "?E e1 to1 m1" using en by simp
      have F: "?F e1 to1 m1" unfolding rs using fail by simp
      show ?thesis
        apply (intro exI[of _ e1] exI[of _ to1] exI[of _ m1] conjI)
            apply (rule e)
           apply (rule G)
          apply (rule S)
         apply (rule E)
        apply (rule F)
        done
    next
      case True
      let ?tb1 = "stor_begin to1"
      from ok1[OF True] obtain t0 where z1: "?tb1 \<noteq> 0" and en1: "endp to1 = ?tb1 + (?l1 + ?l1)"
        and bl1: "blen m1 ?tb1 = Some (?l1 + ?l1)"
        and la1: "\<And>j. 0 \<le> j \<and> j < ?l1 \<Longrightarrow> load m1 ?tb1 j = load m ?tb j"
        and t0: "top m \<le> t0"
        and tl1: "\<And>j. ?l1 \<le> j \<and> j < ?l1 + ?l1 \<Longrightarrow>
                      load m1 ?tb1 j = Some (Str (t0 + (j - ?l1))) \<and>
                      bufs m1 (t0 + (j - ?l1)) = Some [NUL]"
        by blast
      have src: "\<exists>a bs. load m1 ?tb1 k = Some (Str a) \<and> bufs m1 a = Some bs \<and> NUL \<in> set bs"
        if "0 \<le> k" "k < ?l1" for k
      proof -
        from liveA[OF that] obtain a bs where a: "load m ?tb k = Some (Str a)" "bufs m a = Some bs"
          "NUL \<in> set bs" "a < top m" by blast
        then have "load m1 ?tb1 k = Some (Str a)" "bufs m1 a = Some bs"
          using la1[of k] that bf1[of a] by simp_all
        with a(3) show ?thesis by blast
      qed
      have tlk: "load m1 ?tb1 (?l1 + k) = Some (Str (t0 + k)) \<and> bufs m1 (t0 + k) = Some [NUL]"
        if "0 \<le> k" "k < ?l1" for k
      proof -
        have "?l1 \<le> ?l1 + k \<and> ?l1 + k < ?l1 + ?l1" using that by simp
        from tl1[OF this] show ?thesis by (simp only: add_diff_cancel_left')
      qed
      have tail: "\<exists>a. load m1 ?tb1 (?l1 + k) = Some (Str a) \<and> bufs m1 a = Some [NUL]"
        if "0 \<le> k" "k < ?l1" for k
        using tlk[OF that] by blast
      have tinj: "k = k'" if "0 \<le> k" "k < ?l1" "0 \<le> k'" "k' < ?l1"
        "load m1 ?tb1 (?l1 + k) = load m1 ?tb1 (?l1 + k')" for k k'
      proof -
        have "Some (Str (t0 + k)) = Some (Str (t0 + k'))"
          using tlk[OF that(1,2)] tlk[OF that(3,4)] that(5) by (simp only:)
        then show ?thesis by simp
      qed
      have sep: "load m1 ?tb1 k \<noteq> load m1 ?tb1 (?l1 + k')"
        if k: "0 \<le> k" "k < ?l1" "0 \<le> k'" "k' < ?l1" for k k'
      proof -
        from liveA[OF k(1,2)] obtain a where a: "load m ?tb k = Some (Str a)" "a < top m" by auto
        have "load m1 ?tb1 (?l1 + k') = Some (Str (t0 + k'))" using tlk[OF k(3,4)] by blast
        moreover have "a \<noteq> t0 + k'" using a t0 k by simp
        moreover have "load m1 ?tb1 k = Some (Str a)" using la1[of k] k a by simp
        ultimately show ?thesis by simp
      qed
      from append_loop_spec[OF f1 disjI2[OF order_refl] order_refl l1 bl1 order_refl src tail tinj sep]
      obtain err m2 where
        lp: "append_loop ?tb1 ?tb1 ?l1 ?l1 0 m1 = Some (err, m2)" and f2: "fresh m2"
        and t2: "top m1 \<le> top m2" and bl2: "blen m2 = blen m1"
        and F1: "\<And>a. a < top m1 \<and> (\<forall>k. 0 \<le> k \<and> k < ?l1 \<longrightarrow> load m1 ?tb1 (?l1 + k) \<noteq> Some (Str a)) \<Longrightarrow>
                  bufs m2 a = bufs m1 a"
        and F2: "\<And>b' j. \<not> (b' = ?tb1 \<and> ?l1 + 0 \<le> j \<and> j < ?l1 + ?l1) \<Longrightarrow>
                  load m2 b' j = load m1 b' j"
        and P: "\<And>k. 0 \<le> k \<and> k < ?l1 \<Longrightarrow>
                  load m2 ?tb1 (?l1 + k) = Some Null \<or>
                  (\<exists>a. load m2 ?tb1 (?l1 + k) = Some (Str a) \<and> bufs m2 a \<noteq> None \<and>
                       (load m2 ?tb1 (?l1 + k) = load m1 ?tb1 (?l1 + k) \<or> top m1 \<le> a))"
        and I: "\<And>k k'. 0 \<le> k \<and> k < ?l1 \<and> 0 \<le> k' \<and> k' < ?l1 \<and>
                     load m2 ?tb1 (?l1 + k) = load m2 ?tb1 (?l1 + k') \<and>
                     load m2 ?tb1 (?l1 + k) \<noteq> Some Null \<Longrightarrow> k = k'"
        and S: "\<not> err \<Longrightarrow> (\<forall>k. 0 \<le> k \<and> k < ?l1 \<longrightarrow>
                     (\<exists>a bs a'. load m1 ?tb1 k = Some (Str a) \<and> bufs m1 a = Some bs \<and>
                          load m2 ?tb1 (?l1 + k) = Some (Str a') \<and>
                          bufs m2 a' = Some (cstr bs @ [NUL])))"
        by blast
      have old2: "bufs m2 a = bufs m a" if a: "a < top m" for a
      proof -
        have "\<forall>k. 0 \<le> k \<and> k < ?l1 \<longrightarrow> load m1 ?tb1 (?l1 + k) \<noteq> Some (Str a)"
        proof (intro allI impI)
          fix k assume k: "0 \<le> k \<and> k < ?l1"
          have "load m1 ?tb1 (?l1 + k) = Some (Str (t0 + k))" using tlk[of k] k by blast
          moreover have "a \<noteq> t0 + k" using a t0 k by simp
          ultimately show "load m1 ?tb1 (?l1 + k) \<noteq> Some (Str a)" by simp
        qed
        with a t1 have "bufs m2 a = bufs m1 a" using F1[of a] by simp
        with bf1[OF a] show ?thesis by simp
      qed
      have la2: "load m2 ?tb1 j = load m ?tb j" if "0 \<le> j" "j < ?l1" for j
        using F2[of ?tb1 j] la1[of j] that by simp
      have vs1: "(vs(pt \<mapsto> to1)) pt = Some to1" by simp
      show ?thesis
      proof (cases err)
        case noerr: False
        have e: "igraph_strvector_append pt pt vs m = Some (IGRAPH_SUCCESS, vs(pt \<mapsto> to1), m2)"
          using s1 rs True lp noerr pz pt by (simp add: igraph_strvector_append_def)
        have G: "?G IGRAPH_SUCCESS" by simp
        have sz: "igraph_strvector_size to1 = Some (2 * ?l1)"
          using z1 en1 by (simp add: igraph_strvector_size_def)
        note sm = same[of m2 to1, OF old2 la2 z1]
        have new: "get_bytes to1 (?l1 + i) m2 = map_option (\<lambda>bs. cstr bs @ [NUL]) (get_bytes to i m)"
          if i: "0 \<le> i \<and> i < ?l1" for i
        proof -
          from S[OF noerr] i obtain a bs a' where x: "load m1 ?tb1 i = Some (Str a)"
            "bufs m1 a = Some bs" "load m2 ?tb1 (?l1 + i) = Some (Str a')"
            "bufs m2 a' = Some (cstr bs @ [NUL])" by blast
          from liveA[of i] i obtain y where y: "load m ?tb i = Some (Str y)" "y < top m" by auto
          have "a = y" using x(1) y(1) la1[of i] i by simp
          then have "bufs m a = Some bs" using bf1[of y] y x by simp
          then have gf: "get_bytes to i m = Some bs" using y \<open>a = y\<close> tz by (simp add: get_bytes_Str)
          have gt': "get_bytes to1 (?l1 + i) m2 = Some (cstr bs @ [NUL])"
            using x z1 by (simp add: get_bytes_Str)
          show ?thesis using gf gt' by simp
        qed
        have S: "?S IGRAPH_SUCCESS to1 m2"
        proof (intro impI conjI allI)
          show "igraph_strvector_size to1 = Some (2 * ?l1)" by (rule sz)
          fix i assume i: "0 \<le> i \<and> i < ?l1"
          show "get_bytes to1 i m2 = get_bytes to i m" using sm i by blast
          show "get_bytes to1 (?l1 + i) m2 = map_option (\<lambda>bs. cstr bs @ [NUL]) (get_bytes to i m)"
            by (rule new[OF i])
        qed
        have E: "?E IGRAPH_SUCCESS to1 m2" by simp
        have F: "?F IGRAPH_SUCCESS to1 m2" by simp
        show ?thesis
          apply (intro exI[of _ IGRAPH_SUCCESS] exI[of _ to1] exI[of _ m2] conjI)
              apply (rule e)
             apply (rule G)
            apply (rule S)
           apply (rule E)
          apply (rule F)
          done
      next
        case iserr: True
        let ?hi = "?l1 + ?l1"
        have okf: "load m2 ?tb1 i = Some Null \<or> (\<exists>a. load m2 ?tb1 i = Some (Str a) \<and> bufs m2 a \<noteq> None)"
          if "?l1 \<le> i" "i < ?hi" for i
          using P[of "i - ?l1"] that by auto
        have injf: "i = j" if "?l1 \<le> i" "i < ?hi" "?l1 \<le> j" "j < ?hi"
          "load m2 ?tb1 i = load m2 ?tb1 j" "load m2 ?tb1 i \<noteq> Some Null" for i j
        proof -
          have "i - ?l1 = j - ?l1" using I[of "i - ?l1" "j - ?l1"] that by auto
          then show ?thesis by simp
        qed
        from free_loops_spec[of ?l1 ?hi m2 ?tb1, OF okf injf] obtain m3 where
          fl: "free_loop ?tb1 ?l1 ?hi m2 = Some m3"
          and fr3: "\<And>b' j. \<not> (b' = ?tb1 \<and> ?l1 \<le> j \<and> j < ?hi) \<Longrightarrow> load m3 b' j = load m2 b' j"
          and bf3: "\<And>a. bufs m3 a =
              (if \<exists>i. ?l1 \<le> i \<and> i < ?hi \<and> load m2 ?tb1 i = Some (Str a) then None else bufs m2 a)"
          by blast
        let ?to2 = "to1\<lparr>endp := ?tb1 + ?l1\<rparr>"
        have sz1: "igraph_strvector_size to1 = Some ?hi"
          using z1 en1 by (simp add: igraph_strvector_size_def)
        have rs2: "igraph_strvector_resize to1 ?l1 m2 = Some (IGRAPH_SUCCESS, ?to2, m3)"
          using sz1 pos fl by (simp add: igraph_strvector_resize_def)
        have e: "igraph_strvector_append pt pt vs m = Some (IGRAPH_ENOMEM, vs(pt \<mapsto> ?to2), m3)"
          using s1 rs True lp iserr rs2 pz pt by (simp add: igraph_strvector_append_def)
        have G: "?G IGRAPH_ENOMEM"
        proof
          assume g: "Fail \<notin> set (plan m)"
          from resize_granted[OF g rs tp] have "Fail \<notin> set (plan m1)" by simp
          from append_loop_granted[OF this lp] iserr show "IGRAPH_ENOMEM = IGRAPH_SUCCESS" by simp
        qed
        have sz: "igraph_strvector_size ?to2 = Some ?l1"
          using z1 by (simp add: igraph_strvector_size_def)
        have old3: "bufs m3 a = bufs m a" if a: "a < top m" for a
        proof -
          have "\<not> (\<exists>i. ?l1 \<le> i \<and> i < ?hi \<and> load m2 ?tb1 i = Some (Str a))"
          proof
            assume "\<exists>i. ?l1 \<le> i \<and> i < ?hi \<and> load m2 ?tb1 i = Some (Str a)"
            then obtain i where i: "?l1 \<le> i" "i < ?hi" "load m2 ?tb1 i = Some (Str a)" by blast
            from P[of "i - ?l1"] i have "load m2 ?tb1 i = load m1 ?tb1 i \<or> top m1 \<le> a" by auto
            moreover have "load m1 ?tb1 i = Some (Str (t0 + (i - ?l1)))" using tl1[of i] i by simp
            ultimately show False using i a t0 t1 by auto
          qed
          then have "bufs m3 a = bufs m2 a" using bf3[of a] by auto
          with old2[OF a] show ?thesis by simp
        qed
        have la3: "load m3 (stor_begin ?to2) j = load m ?tb j" if "0 \<le> j" "j < ?l1" for j
          using fr3[of ?tb1 j] la2[of j] that by simp
        have z2: "stor_begin ?to2 \<noteq> 0" using z1 by simp
        note sm = same[of m3 ?to2, OF old3 la3 z2]
        have S: "?S IGRAPH_ENOMEM ?to2 m3" by simp
        have E: "?E IGRAPH_ENOMEM ?to2 m3" by simp
        have F: "?F IGRAPH_ENOMEM ?to2 m3"
        proof (intro impI conjI)
          show "igraph_strvector_size ?to2 = Some ?l1" by (rule sz)
          show "\<forall>i. 0 \<le> i \<and> i < ?l1 \<longrightarrow> get_bytes ?to2 i m3 = get_bytes to i m" by (rule sm)
        qed
        show ?thesis
          apply (intro exI[of _ IGRAPH_ENOMEM] exI[of _ ?to2] exI[of _ m3] conjI)
              apply (rule e)
             apply (rule G)
            apply (rule S)
           apply (rule E)
          apply (rule F)
          done
      qed
    qed
  qed
qed

text \<open>\<open>["a","b"]\<close> appended to itself, the resize moving the block.\<close>

lemma append_to_itself:
  "(case igraph_strvector_append 10 10 [10 \<mapsto> vec 2] (vec_mem [''a'', ''b''] [Moved] fc) of
      None \<Rightarrow> False
    | Some (e, vs', m') \<Rightarrow>
        e = IGRAPH_SUCCESS \<and>
        vs' 10 = Some \<lparr>stor_begin = 200, stor_end = 204, endp = 204\<rparr> \<and>
        map_option (\<lambda>to'. strings to' m') (vs' 10) =
          Some [Some ''a'', Some ''b'', Some ''a'', Some ''b''])"
  by (simp add: vec_ops loops mem_ops observers fixture eval_nat_numeral)

end
